theory Spec2Isabelle
  imports Complex_Main "HOL-Library.Multiset"
begin

section \<open>Strings and numbers of the host language\<close>

text \<open>
  \<open>String.prototype.toLowerCase\<close> on the ASCII letters; every other character is kept.
  The monitor applies it to hexadecimal addresses only.
\<close>

definition toLowerChar :: "char \<Rightarrow> char" where
  "toLowerChar c =
     (case map_of (zip ''ABCDEFGHIJKLMNOPQRSTUVWXYZ'' ''abcdefghijklmnopqrstuvwxyz'') c of
        Some l \<Rightarrow> l
      | None \<Rightarrow> c)"

definition toLowerCase :: "string \<Rightarrow> string" where
  "toLowerCase s = map toLowerChar s"

text \<open>
  \<open>BigNumber.prototype.toString\<close> of an unsigned 256-bit log argument: the decimal
  numeral without leading zeros.
\<close>

definition digitChar :: "nat \<Rightarrow> char" where
  "digitChar d = ''0123456789'' ! d"

function toStringNat :: "nat \<Rightarrow> string" where
  "toStringNat n =
     (if n < 10 then [digitChar n]
      else toStringNat (n div 10) @ [digitChar (n mod 10)])"
  by pat_completeness auto
termination
  by (relation "measure id") auto

declare toStringNat.simps [simp del]

text \<open>
  \<open>ethers.BigNumber.from\<close> belongs to a library outside the repository, so the
  pipeline takes it as a parameter \<open>bn\<close>: \<open>None\<close> stands for the argument error it
  throws. \<open>bigNumberFromDecimal\<close> is what the library computes on the strings matching
  \<open>-?[0-9]+\<close>, the only ones the monitor itself produces; \<open>readsDecimals bn\<close> says that
  \<open>bn\<close> agrees with it on every such string.
\<close>

type_synonym bigNumberFrom = "string \<Rightarrow> int option"

definition decDigit :: "char \<Rightarrow> nat option" where
  "decDigit c =
     (let n = (of_char c :: nat) in if 48 \<le> n \<and> n \<le> 57 then Some (n - 48) else None)"

fun parseDigits :: "nat \<Rightarrow> string \<Rightarrow> nat option" where
  "parseDigits acc [] = Some acc"
| "parseDigits acc (c # cs) =
     (case decDigit c of
        None \<Rightarrow> None
      | Some d \<Rightarrow> parseDigits (acc * 10 + d) cs)"

definition bigNumberFromDecimal :: bigNumberFrom where
  "bigNumberFromDecimal s =
     (case s of
        [] \<Rightarrow> None
      | c # cs \<Rightarrow>
          if c = CHR ''-'' then
            (if cs = [] then None else map_option (\<lambda>n. - int n) (parseDigits 0 cs))
          else map_option int (parseDigits 0 s))"

definition readsDecimals :: "bigNumberFrom \<Rightarrow> bool" where
  "readsDecimals bn = (\<forall>s v. bigNumberFromDecimal s = Some v \<longrightarrow> bn s = Some v)"

section \<open>Chain monitor: data\<close>

type_synonym instant = nat

datatype connectionMode = Websocket | Polling | Disconnected

datatype failure = NotConnected | RpcFailure | InvalidBigNumber | WebSocketFailure

record transferEvent =
  txHash :: string
  fromAddress :: string
  toAddress :: string
  tokenId :: string
  amount :: string
  blockNumber :: nat
  timestamp :: instant
  isBatch :: bool
  operator :: string

text \<open>
  A decoded \<open>TransferSingle\<close> log as \<open>queryFilter\<close> returns it. \<open>args\<close> is \<open>None\<close>
  for a log the ABI decoder could not read, the one case in which \<open>parseTransferLog\<close>
  answers \<open>null\<close>.
\<close>

record logArgs =
  argOperator :: string
  argFrom :: string
  argTo :: string
  argId :: nat
  argValue :: nat

record transferLog =
  transactionHash :: string
  logBlockNumber :: nat
  args :: "logArgs option"

record rawConfig =
  rawInfuraApiKey :: string
  rawInfuraNetwork :: "string option"
  rawWsEnabled :: "bool option"
  rawPollingIntervalMs :: "nat option"
  rawMinTransferValue :: "string option"
  rawAutoReconnect :: "bool option"
  rawReconnectDelayMs :: "nat option"
  rawMaxReconnectAttempts :: "nat option"

record config =
  infuraApiKey :: string
  infuraNetwork :: string
  wsEnabled :: bool
  pollingIntervalMs :: nat
  minTransferValue :: string
  autoReconnect :: bool
  reconnectDelayMs :: nat
  maxReconnectAttempts :: nat

record monitorStats =
  mode :: connectionMode
  connected :: bool
  eventsObserved :: nat
  reconnectCount :: nat
  startedAt :: "instant option"
  lastEventAt :: "instant option"
  currentBlock :: "nat option"

text \<open>
  The fields of \<open>ChainMonitorClient\<close>. A provider or contract handle is the URL or
  address it was built from, \<open>None\<close> for \<open>null\<close>; the polling timer is the interval it
  was armed with.
\<close>

record monitor =
  httpProvider :: "string option"
  wsProvider :: "string option"
  ctfContract :: "string option"
  negRiskContract :: "string option"
  isRunning :: bool
  currentMode :: connectionMode
  pollingTimer :: "nat option"
  lastScannedBlock :: nat
  reconnectAttempts :: nat
  stats :: monitorStats

text \<open>What the monitor hands to its \<open>EventEmitter\<close>, in order.\<close>

datatype emission =
    EmitConnected connectionMode
  | EmitDisconnected
  | EmitTransfer transferEvent
  | EmitError failure

definition CTF_EXCHANGE :: string where
  "CTF_EXCHANGE = ''0x4bFb41d5B3570DeFd03C39a9A4D8dE6Bd8B8982E''"

definition NEG_RISK_CTF_EXCHANGE :: string where
  "NEG_RISK_CTF_EXCHANGE = ''0xC5d563A36AE78145C45a50134d48A1215220f80a''"

definition CTF_CONTRACT :: string where
  "CTF_CONTRACT = ''0x4D97DCd97eC945f40cF65F87097ACe5EA0476045''"

definition NEG_RISK_ADAPTER :: string where
  "NEG_RISK_ADAPTER = ''0xd91E80cF2E7be2e162c6513ceD06f1dD0dA35296''"

section \<open>Chain monitor: construction and the public accessors\<close>

text \<open>
  The constructor's defaults. \<open>||\<close> replaces every falsy value (an absent field, \<open>0\<close>,
  the empty string), \<open>??\<close> only an absent one.
\<close>

definition orElseString :: "string option \<Rightarrow> string \<Rightarrow> string" where
  "orElseString v d = (case v of None \<Rightarrow> d | Some s \<Rightarrow> if s = [] then d else s)"

definition orElseNat :: "nat option \<Rightarrow> nat \<Rightarrow> nat" where
  "orElseNat v d = (case v of None \<Rightarrow> d | Some n \<Rightarrow> if n = 0 then d else n)"

definition nullishBool :: "bool option \<Rightarrow> bool \<Rightarrow> bool" where
  "nullishBool v d = (case v of None \<Rightarrow> d | Some b \<Rightarrow> b)"

definition makeConfig :: "rawConfig \<Rightarrow> config" where
  "makeConfig c =
     \<lparr> infuraApiKey = rawInfuraApiKey c,
       infuraNetwork = orElseString (rawInfuraNetwork c) ''polygon-mainnet'',
       wsEnabled = nullishBool (rawWsEnabled c) True,
       pollingIntervalMs = orElseNat (rawPollingIntervalMs c) 3000,
       minTransferValue = orElseString (rawMinTransferValue c) ''0'',
       autoReconnect = nullishBool (rawAutoReconnect c) True,
       reconnectDelayMs = orElseNat (rawReconnectDelayMs c) 5000,
       maxReconnectAttempts = orElseNat (rawMaxReconnectAttempts c) 10 \<rparr>"

definition newMonitor :: monitor where
  "newMonitor =
     \<lparr> httpProvider = None, wsProvider = None, ctfContract = None, negRiskContract = None,
       isRunning = False, currentMode = Disconnected, pollingTimer = None,
       lastScannedBlock = 0, reconnectAttempts = 0,
       stats = \<lparr> mode = Disconnected, connected = False, eventsObserved = 0,
                 reconnectCount = 0, startedAt = None, lastEventAt = None,
                 currentBlock = None \<rparr> \<rparr>"

definition getStats :: "monitor \<Rightarrow> monitorStats" where
  "getStats m = stats m"

definition isConnected :: "monitor \<Rightarrow> bool" where
  "isConnected m = connected (stats m)"

definition getMode :: "monitor \<Rightarrow> connectionMode" where
  "getMode m = currentMode m"

definition httpUrl :: "config \<Rightarrow> string" where
  "httpUrl cfg = ''https://'' @ infuraNetwork cfg @ ''.infura.io/v3/'' @ infuraApiKey cfg"

definition wsUrl :: "config \<Rightarrow> string" where
  "wsUrl cfg = ''wss://'' @ infuraNetwork cfg @ ''.infura.io/ws/v3/'' @ infuraApiKey cfg"

section \<open>Chain monitor: connection state machine\<close>

text \<open>
  \<open>startPolling\<close>: nothing happens when a polling timer is already armed; otherwise
  the mode becomes polling, the monitor counts as connected and the timer is armed.
\<close>

definition startPolling :: "config \<Rightarrow> monitor \<Rightarrow> monitor \<times> emission list" where
  "startPolling cfg m =
     (if pollingTimer m \<noteq> None then (m, [])
      else
        (m\<lparr> currentMode := Polling,
            stats := (stats m)\<lparr> mode := Polling, connected := True \<rparr>,
            pollingTimer := Some (pollingIntervalMs cfg) \<rparr>,
         [EmitConnected Polling]))"

text \<open>
  The three ways the push transport can answer \<open>connectWebSocket\<close>: the provider
  cannot be constructed, it is constructed but never becomes ready (the handle stays
  assigned), or it becomes ready.
\<close>

datatype wsOutcome = WsConstructFails | WsReadyFails | WsReady

definition connectWebSocket ::
  "config \<Rightarrow> wsOutcome \<Rightarrow> monitor \<Rightarrow> monitor \<times> emission list \<times> failure option" where
  "connectWebSocket cfg ws m =
     (case ws of
        WsConstructFails \<Rightarrow> (m, [], Some WebSocketFailure)
      | WsReadyFails \<Rightarrow> (m\<lparr> wsProvider := Some (wsUrl cfg) \<rparr>, [], Some WebSocketFailure)
      | WsReady \<Rightarrow>
          (m\<lparr> wsProvider := Some (wsUrl cfg),
              ctfContract := Some CTF_CONTRACT,
              negRiskContract := Some NEG_RISK_ADAPTER,
              currentMode := Websocket,
              stats := (stats m)\<lparr> mode := Websocket, connected := True \<rparr>,
              reconnectAttempts := 0 \<rparr>,
           [EmitConnected Websocket], None))"

text \<open>
  \<open>connect\<close>, given the time, the answer of \<open>getBlockNumber\<close> (\<open>None\<close> when the
  request fails) and the answer of the push transport. The third component is the error
  the call rejects with, if any.
\<close>

definition connect ::
  "config \<Rightarrow> instant \<Rightarrow> nat option \<Rightarrow> wsOutcome \<Rightarrow> monitor
     \<Rightarrow> monitor \<times> emission list \<times> failure option" where
  "connect cfg now height ws m =
     (if isRunning m then (m, [], None)
      else
        let m1 = m\<lparr> isRunning := True,
                    stats := (stats m)\<lparr> startedAt := Some now \<rparr>,
                    httpProvider := Some (httpUrl cfg) \<rparr>
        in case height of
             None \<Rightarrow> (m1, [], Some RpcFailure)
           | Some b \<Rightarrow>
               let m2 = m1\<lparr> lastScannedBlock := b,
                            stats := (stats m1)\<lparr> currentBlock := Some b \<rparr> \<rparr>
               in if wsEnabled cfg then
                    (case connectWebSocket cfg ws m2 of
                       (m3, out, None) \<Rightarrow> (m3, out, None)
                     | (m3, out, Some e) \<Rightarrow>
                         (case startPolling cfg m3 of (m4, out') \<Rightarrow> (m4, out @ out', None)))
                  else
                    (case startPolling cfg m2 of (m3, out) \<Rightarrow> (m3, out, None)))"

definition disconnect :: "monitor \<Rightarrow> monitor \<times> emission list" where
  "disconnect m =
     (m\<lparr> isRunning := False,
         pollingTimer := None,
         wsProvider := None,
         ctfContract := None,
         negRiskContract := None,
         currentMode := Disconnected,
         stats := (stats m)\<lparr> mode := Disconnected, connected := False \<rparr> \<rparr>,
      [EmitDisconnected])"

text \<open>
  \<open>handleDisconnect\<close>, run when a push socket closes. The third component tells
  whether a reconnect callback was scheduled.
\<close>

definition handleDisconnect ::
  "config \<Rightarrow> monitor \<Rightarrow> monitor \<times> emission list \<times> bool" where
  "handleDisconnect cfg m =
     (if \<not> isRunning m then (m, [], False)
      else
        let m1 = m\<lparr> stats := (stats m)\<lparr> connected := False \<rparr> \<rparr>;
            m2 = (if wsProvider m1 \<noteq> None
                  then m1\<lparr> wsProvider := None, ctfContract := None, negRiskContract := None \<rparr>
                  else m1)
        in if autoReconnect cfg \<and> reconnectAttempts m2 < maxReconnectAttempts cfg then
             (m2\<lparr> reconnectAttempts := reconnectAttempts m2 + 1,
                  stats := (stats m2)\<lparr> reconnectCount := reconnectCount (stats m2) + 1 \<rparr> \<rparr>,
              [], True)
           else if currentMode m2 = Websocket then
             (case startPolling cfg m2 of (m3, out) \<Rightarrow> (m3, out, False))
           else (m2, [], False))"

text \<open>The callback \<open>handleDisconnect\<close> schedules, run after the reconnect delay.\<close>

definition reconnectCallback ::
  "config \<Rightarrow> wsOutcome \<Rightarrow> monitor \<Rightarrow> monitor \<times> emission list" where
  "reconnectCallback cfg ws m =
     (if isRunning m then
        (case connectWebSocket cfg ws m of
           (m1, out, None) \<Rightarrow> (m1, out)
         | (m1, out, Some e) \<Rightarrow>
             (case startPolling cfg m1 of (m2, out') \<Rightarrow> (m2, out @ out')))
      else (m, []))"

section \<open>Chain monitor: event pipeline\<close>

text \<open>
  \<open>processEvent\<close>: the minimum-value filter, the counters, the \<open>transfer\<close> emission.
  The amount is parsed only when the threshold is positive, as \<open>&&\<close> evaluates it.
\<close>

definition processEvent ::
  "bigNumberFrom \<Rightarrow> config \<Rightarrow> instant \<Rightarrow> transferEvent \<Rightarrow> monitor
     \<Rightarrow> monitor \<times> emission list \<times> failure option" where
  "processEvent bn cfg now ev m =
     (let observed =
            (m\<lparr> stats := (stats m)\<lparr> eventsObserved := eventsObserved (stats m) + 1,
                                     lastEventAt := Some now,
                                     currentBlock := Some (blockNumber ev) \<rparr> \<rparr>,
             [EmitTransfer ev], None)
      in case bn (minTransferValue cfg) of
           None \<Rightarrow> (m, [], Some InvalidBigNumber)
         | Some minValue \<Rightarrow>
             if 0 < minValue then
               (case bn (amount ev) of
                  None \<Rightarrow> (m, [], Some InvalidBigNumber)
                | Some a \<Rightarrow> if a < minValue then (m, [], None) else observed)
             else observed)"

text \<open>
  The push handler of \<open>TransferSingle\<close>: the notification's arguments, then the hash
  and block of the log that carried it. \<open>now\<close> is in milliseconds.
\<close>

definition handleTransferSingle ::
  "bigNumberFrom \<Rightarrow> config \<Rightarrow> instant \<Rightarrow> string \<Rightarrow> string \<Rightarrow> string \<Rightarrow> nat \<Rightarrow> nat
     \<Rightarrow> string \<Rightarrow> nat \<Rightarrow> monitor \<Rightarrow> monitor \<times> emission list \<times> failure option" where
  "handleTransferSingle bn cfg now oper src dst ident val hash blk m =
     processEvent bn cfg now
       \<lparr> txHash = hash, fromAddress = toLowerCase src, toAddress = toLowerCase dst,
         tokenId = toStringNat ident, amount = toStringNat val, blockNumber = blk,
         timestamp = now div 1000, isBatch = False, operator = toLowerCase oper \<rparr> m"

text \<open>A list of events through the pipeline, stopping at the first one that throws.\<close>

fun processEvents ::
  "bigNumberFrom \<Rightarrow> config \<Rightarrow> instant \<Rightarrow> transferEvent list \<Rightarrow> monitor
     \<Rightarrow> monitor \<times> emission list \<times> failure option" where
  "processEvents bn cfg now [] m = (m, [], None)"
| "processEvents bn cfg now (ev # evs) m =
     (case processEvent bn cfg now ev m of
        (m1, out, Some e) \<Rightarrow> (m1, out, Some e)
      | (m1, out, None) \<Rightarrow>
          (case processEvents bn cfg now evs m1 of
             (m2, out', r) \<Rightarrow> (m2, out @ out', r)))"

section \<open>Chain monitor: historical queries and polling\<close>

definition parseTransferLog :: "transferLog \<Rightarrow> bool \<Rightarrow> transferEvent option" where
  "parseTransferLog entry batch =
     (case args entry of
        None \<Rightarrow> None
      | Some a \<Rightarrow>
          Some \<lparr> txHash = transactionHash entry,
                 fromAddress = toLowerCase (argFrom a),
                 toAddress = toLowerCase (argTo a),
                 tokenId = toStringNat (argId a),
                 amount = toStringNat (argValue a),
                 blockNumber = logBlockNumber entry,
                 timestamp = 0,
                 isBatch = batch,
                 operator = toLowerCase (argOperator a) \<rparr>)"

text \<open>
  The chain node, as \<open>queryFilter\<close> sees it: the \<open>TransferSingle\<close> logs of a contract
  address between two block numbers, or \<open>None\<close> when the request is rejected.
\<close>

type_synonym queryFilter = "string \<Rightarrow> nat \<Rightarrow> nat \<Rightarrow> transferLog list option"

definition parseLogs :: "transferLog list \<Rightarrow> transferEvent list" where
  "parseLogs logs = List.map_filter (\<lambda>entry. parseTransferLog entry False) logs"

definition getHistoricalTransfers ::
  "queryFilter \<Rightarrow> monitor \<Rightarrow> nat \<Rightarrow> nat \<Rightarrow> failure + transferEvent list" where
  "getHistoricalTransfers qf m fromBlock toBlock =
     (if httpProvider m = None then Inl NotConnected
      else
        case qf CTF_EXCHANGE fromBlock toBlock of
          None \<Rightarrow> Inl RpcFailure
        | Some ctfLogs \<Rightarrow>
            (case qf NEG_RISK_CTF_EXCHANGE fromBlock toBlock of
               None \<Rightarrow> Inl RpcFailure
             | Some negRiskLogs \<Rightarrow>
                 Inr (sort_key blockNumber (parseLogs ctfLogs @ parseLogs negRiskLogs))))"

definition pollNewBlocks ::
  "bigNumberFrom \<Rightarrow> config \<Rightarrow> instant \<Rightarrow> nat option \<Rightarrow> queryFilter \<Rightarrow> monitor
     \<Rightarrow> monitor \<times> emission list" where
  "pollNewBlocks bn cfg now height qf m =
     (if httpProvider m = None \<or> \<not> isRunning m then (m, [])
      else
        case height of
          None \<Rightarrow> (m, [EmitError RpcFailure])
        | Some latest \<Rightarrow>
            if lastScannedBlock m < latest then
              (case getHistoricalTransfers qf m (lastScannedBlock m + 1) latest of
                 Inl e \<Rightarrow> (m, [EmitError e])
               | Inr events \<Rightarrow>
                   (case processEvents bn cfg now events m of
                      (m1, out, Some e) \<Rightarrow> (m1, out @ [EmitError e])
                    | (m1, out, None) \<Rightarrow>
                        (m1\<lparr> lastScannedBlock := latest,
                             stats := (stats m1)\<lparr> currentBlock := Some latest \<rparr> \<rparr>,
                         out)))
            else (m, []))"

section \<open>Chain monitor: runs\<close>

text \<open>
  Everything that can happen to a monitor, with the answers of the outside world as
  arguments: the two public calls, a push socket closing, the reconnect callback
  firing, a tick of the polling timer, and an event entering the pipeline (from a push
  notification or any other caller). Each runs to completion before the next starts.
\<close>

datatype operation =
    OpConnect instant "nat option" wsOutcome
  | OpDisconnect
  | OpSocketClosed
  | OpReconnectTimer wsOutcome
  | OpPollTick instant "nat option" queryFilter
  | OpEvent instant transferEvent

fun perform ::
  "bigNumberFrom \<Rightarrow> config \<Rightarrow> operation \<Rightarrow> monitor \<Rightarrow> monitor \<times> emission list" where
  "perform bn cfg (OpConnect now height ws) m =
     (case connect cfg now height ws m of (m1, out, r) \<Rightarrow> (m1, out))"
| "perform bn cfg OpDisconnect m = disconnect m"
| "perform bn cfg OpSocketClosed m =
     (case handleDisconnect cfg m of (m1, out, scheduled) \<Rightarrow> (m1, out))"
| "perform bn cfg (OpReconnectTimer ws) m = reconnectCallback cfg ws m"
| "perform bn cfg (OpPollTick now height qf) m = pollNewBlocks bn cfg now height qf m"
| "perform bn cfg (OpEvent now ev) m =
     (case processEvent bn cfg now ev m of (m1, out, r) \<Rightarrow> (m1, out))"

fun runOperations ::
  "bigNumberFrom \<Rightarrow> config \<Rightarrow> operation list \<Rightarrow> monitor \<Rightarrow> monitor" where
  "runOperations bn cfg [] m = m"
| "runOperations bn cfg (op # ops) m = runOperations bn cfg ops (fst (perform bn cfg op m))"

text \<open>
  Three facts every run keeps: a polling timer is armed only while the monitor is
  running, and a monitor that is running or counts as connected holds its HTTP provider.
\<close>

definition monitorInvariant :: "monitor \<Rightarrow> bool" where
  "monitorInvariant m =
     ((pollingTimer m = None \<or> isRunning m)
      \<and> (httpProvider m \<noteq> None \<or> \<not> isRunning m)
      \<and> (httpProvider m \<noteq> None \<or> \<not> connected (stats m)))"

fun isConnect :: "operation \<Rightarrow> bool" where
  "isConnect (OpConnect now height ws) = True"
| "isConnect other = False"


section \<open>Chain monitor: an example\<close>

text \<open>
  A configuration, a node and a monitor to run the definitions on: the threshold is
  \<open>1000\<close> and the reconnect budget 3; the node holds three logs of the first exchange
  contract and two of the second, and answers a query with those in the block range.
\<close>

definition exampleConfig :: config where
  "exampleConfig =
     makeConfig
       \<lparr> rawInfuraApiKey = ''k'', rawInfuraNetwork = None, rawWsEnabled = None,
         rawPollingIntervalMs = None, rawMinTransferValue = Some ''1000'',
         rawAutoReconnect = None, rawReconnectDelayMs = None,
         rawMaxReconnectAttempts = Some 3 \<rparr>"

definition exampleLog :: "string \<Rightarrow> nat \<Rightarrow> nat \<Rightarrow> transferLog" where
  "exampleLog hash blk val =
     \<lparr> transactionHash = hash, logBlockNumber = blk,
       args = Some \<lparr> argOperator = ''0xAA'', argFrom = ''0xBb'', argTo = ''0xCC'',
                     argId = 7, argValue = val \<rparr> \<rparr>"

definition exampleNode :: queryFilter where
  "exampleNode contract fromBlock toBlock =
     Some (filter (\<lambda>entry. fromBlock \<le> logBlockNumber entry \<and> logBlockNumber entry \<le> toBlock)
             (if contract = CTF_EXCHANGE
              then [exampleLog ''0x01'' 108 1500, exampleLog ''0x02'' 95 20, exampleLog ''0x03'' 101 500]
              else if contract = NEG_RISK_CTF_EXCHANGE
              then [exampleLog ''0x04'' 105 3000, exampleLog ''0x05'' 120 1]
              else []))"

definition exampleEvent :: "string \<Rightarrow> transferEvent" where
  "exampleEvent a =
     \<lparr> txHash = ''0x06'', fromAddress = ''0xbb'', toAddress = ''0xcc'', tokenId = ''7'',
       amount = a, blockNumber = 100, timestamp = 1, isBatch = False, operator = ''0xaa'' \<rparr>"

text \<open>
  \<open>pushMonitor\<close> is a new monitor after a \<open>connect\<close> whose push connection came up;
  \<open>exampleTransfer\<close> is what \<open>parseTransferLog\<close> makes of an \<open>exampleLog\<close>.
\<close>

definition pushMonitor :: monitor where
  "pushMonitor =
     runOperations bigNumberFromDecimal exampleConfig [OpConnect 0 (Some 100) WsReady] newMonitor"


definition exampleTransfer :: "string \<Rightarrow> nat \<Rightarrow> string \<Rightarrow> transferEvent" where
  "exampleTransfer hash blk a =
     \<lparr> txHash = hash, fromAddress = ''0xbb'', toAddress = ''0xcc'', tokenId = ''7'',
       amount = a, blockNumber = blk, timestamp = 0, isBatch = False, operator = ''0xaa'' \<rparr>"

section \<open>Chain monitor: the pull-based stream\<close>

text \<open>
  One call of \<open>subscribeAllTransfers\<close>: an async generator with its own \<open>eventQueue\<close>
  and \<open>resolveNext\<close>. \<open>started\<close> holds once the body has run up to the loop (the
  \<open>transfer\<close> handler is attached then, not at the call), \<open>finished\<close> once the loop has
  been left and the handler detached. \<open>resolveNext\<close> holds while a resolver is stored,
  that is while the body waits at its \<open>await\<close>; \<open>resolved\<close> holds the event a stored
  resolver was called with until the body resumes. \<open>pending\<close> counts the \<open>next()\<close>
  requests not answered yet (the runtime queues them on the generator), and \<open>yielded\<close>
  lists the events handed out in answer to requests, oldest first.
\<close>

record streamReader =
  started :: bool
  finished :: bool
  eventQueue :: "transferEvent list"
  resolveNext :: bool
  resolved :: "transferEvent option"
  pending :: nat
  yielded :: "transferEvent list"

definition newReader :: streamReader where
  "newReader =
     \<lparr> started = False, finished = False, eventQueue = [], resolveNext = False,
       resolved = None, pending = 0, yielded = [] \<rparr>"

text \<open>The \<open>transfer\<close> handler of a reader.\<close>

definition handler :: "transferEvent \<Rightarrow> streamReader \<Rightarrow> streamReader" where
  "handler ev r =
     (if resolveNext r then r\<lparr> resolved := Some ev, resolveNext := False \<rparr>
      else r\<lparr> eventQueue := eventQueue r @ [ev] \<rparr>)"

text \<open>An emitted \<open>transfer\<close> reaches the handler of every reader that has one attached.\<close>

definition deliver :: "transferEvent \<Rightarrow> streamReader \<Rightarrow> streamReader" where
  "deliver ev r = (if started r \<and> \<not> finished r then handler ev r else r)"

text \<open>
  The loop of the generator, run for as long as a request is unanswered: when the
  monitor is not running the loop is left, the handler detached and every request
  answered with the end of the stream; a queued event answers the oldest request; with
  the queue empty the body stores a resolver and waits.
\<close>

function serve :: "bool \<Rightarrow> streamReader \<Rightarrow> streamReader" where
  "serve running r =
     (if pending r = 0 then r
      else if \<not> running then r\<lparr> finished := True, pending := 0 \<rparr>
      else
        case eventQueue r of
          [] \<Rightarrow> r\<lparr> resolveNext := True \<rparr>
        | ev # rest \<Rightarrow>
            serve running
              (r\<lparr> eventQueue := rest, yielded := yielded r @ [ev], pending := pending r - 1 \<rparr>))"
  by pat_completeness auto
termination
  by (relation "measure (\<lambda>(running, r). pending r)") auto

declare serve.simps [simp del]

text \<open>
  The body resumes after its \<open>await\<close>: the event the resolver was called with answers
  the oldest request, and the loop goes on.
\<close>

definition resume :: "bool \<Rightarrow> streamReader \<Rightarrow> streamReader" where
  "resume running r =
     (case resolved r of
        None \<Rightarrow> r
      | Some ev \<Rightarrow>
          serve running
            (r\<lparr> resolved := None, yielded := yielded r @ [ev], pending := pending r - 1 \<rparr>))"

text \<open>
  A consumer asks for the next item (\<open>next()\<close>). A finished generator answers with the
  end of the stream at once; one whose body is waiting queues the request; otherwise
  the body runs (from its start at the first request). The loop test reads the
  monitor's \<open>isRunning\<close>.
\<close>

definition readerNext :: "bool \<Rightarrow> streamReader \<Rightarrow> streamReader" where
  "readerNext running r =
     (if finished r then r
      else if resolveNext r then r\<lparr> pending := pending r + 1 \<rparr>
      else serve running (r\<lparr> started := True, pending := pending r + 1 \<rparr>))"

record monitorSystem =
  monitorOf :: monitor
  readers :: "streamReader list"

text \<open>
  What can happen to a monitor and its streams: a new call of
  \<open>subscribeAllTransfers\<close>, a request on the stream of a given number, an operation of
  the monitor. The handlers run inside the operation that emits; the bodies they woke
  resume once it is over, before anything else happens.
\<close>

datatype action =
    Subscribe
  | Next nat
  | Perform operation

fun transfersOf :: "emission list \<Rightarrow> transferEvent list" where
  "transfersOf [] = []"
| "transfersOf (EmitTransfer ev # out) = ev # transfersOf out"
| "transfersOf (other # out) = transfersOf out"

fun deliverAll :: "transferEvent list \<Rightarrow> streamReader list \<Rightarrow> streamReader list" where
  "deliverAll [] rs = rs"
| "deliverAll (ev # evs) rs = deliverAll evs (map (deliver ev) rs)"

fun systemStep ::
  "bigNumberFrom \<Rightarrow> config \<Rightarrow> action \<Rightarrow> monitorSystem \<Rightarrow> monitorSystem" where
  "systemStep bn cfg Subscribe s = s\<lparr> readers := readers s @ [newReader] \<rparr>"
| "systemStep bn cfg (Next i) s =
     (if i < length (readers s)
      then s\<lparr> readers := (readers s)[i := readerNext (isRunning (monitorOf s)) (readers s ! i)] \<rparr>
      else s)"
| "systemStep bn cfg (Perform op) s =
     (case perform bn cfg op (monitorOf s) of
        (m1, out) \<Rightarrow>
          \<lparr> monitorOf = m1,
            readers = map (resume (isRunning m1)) (deliverAll (transfersOf out) (readers s)) \<rparr>)"

fun runSystem ::
  "bigNumberFrom \<Rightarrow> config \<Rightarrow> action list \<Rightarrow> monitorSystem \<Rightarrow> monitorSystem" where
  "runSystem bn cfg [] s = s"
| "runSystem bn cfg (a # as) s = runSystem bn cfg as (systemStep bn cfg a s)"

text \<open>The \<open>transfer\<close> events the monitor emits during a run, in order of emission.\<close>

fun stepTransfers ::
  "bigNumberFrom \<Rightarrow> config \<Rightarrow> action \<Rightarrow> monitorSystem \<Rightarrow> transferEvent list" where
  "stepTransfers bn cfg (Perform op) s = transfersOf (snd (perform bn cfg op (monitorOf s)))"
| "stepTransfers bn cfg a s = []"

fun runTransfers ::
  "bigNumberFrom \<Rightarrow> config \<Rightarrow> action list \<Rightarrow> monitorSystem \<Rightarrow> transferEvent list" where
  "runTransfers bn cfg [] s = []"
| "runTransfers bn cfg (a # as) s =
     stepTransfers bn cfg a s @ runTransfers bn cfg as (systemStep bn cfg a s)"

text \<open>The number of requests a run makes on the stream of number \<open>i\<close>.\<close>

fun requestsOf :: "nat \<Rightarrow> action list \<Rightarrow> nat" where
  "requestsOf i [] = 0"
| "requestsOf i (Next j # as) = (if j = i then 1 else 0) + requestsOf i as"
| "requestsOf i (a # as) = requestsOf i as"

text \<open>
  For the stream of number \<open>i\<close> in the state \<open>s\<close> and a run from there: every event
  the stream has taken or will take, in order (those handed out, those queued, those
  the run emits), and the number of requests made on it up to the end of the run
  (those answered, those waiting, those of the run).
\<close>

definition streamEvents ::
  "bigNumberFrom \<Rightarrow> config \<Rightarrow> nat \<Rightarrow> monitorSystem \<Rightarrow> action list \<Rightarrow> transferEvent list" where
  "streamEvents bn cfg i s acts =
     yielded (readers s ! i) @ eventQueue (readers s ! i) @ runTransfers bn cfg acts s"

definition streamRequests :: "nat \<Rightarrow> monitorSystem \<Rightarrow> action list \<Rightarrow> nat" where
  "streamRequests i s acts =
     length (yielded (readers s ! i)) + pending (readers s ! i) + requestsOf i acts"

text \<open>
  What holds of every reader between two steps: no resolved promise is outstanding, a
  waiting body has an empty queue and a request to answer, and a body that is not
  waiting has answered every request.
\<close>

definition readerInvariant :: "streamReader \<Rightarrow> bool" where
  "readerInvariant r =
     (resolved r = None
      \<and> (if resolveNext r then eventQueue r = [] \<and> 0 < pending r else pending r = 0))"

text \<open>The example monitor with two streams, a request waiting on each.\<close>

definition twoWaitingReaders :: monitorSystem where
  "twoWaitingReaders =
     runSystem bigNumberFromDecimal exampleConfig [Subscribe, Subscribe, Next 0, Next 1]
       \<lparr> monitorOf = pushMonitor, readers = [] \<rparr>"

section \<open>Realtime service\<close>

text \<open>
  Modelled from the spec: \<open>PriceUpdate\<close> and \<open>BookUpdate\<close> are declared in the core
  types, which are not among the sources; each is a snapshot keyed by an asset
  identifier, and the service reads nothing but that identifier and, of a price update,
  the price. \<open>'p\<close> is the type of prices. The shape of a trade is the one the service's
  declaration file gives.
\<close>

record 'p priceUpdate =
  priceAssetId :: string
  price :: 'p

record bookUpdate =
  bookAssetId :: string

datatype tradeSide = BUY | SELL

record 'p lastTrade =
  tradeAssetId :: string
  tradePrice :: 'p
  tradeSide :: tradeSide
  tradeSize :: 'p
  tradeTimestamp :: nat

text \<open>
  Modelled from the spec: the WebSocket manager is not among the sources. It re-emits
  every incoming frame as a typed event (\<open>priceUpdate\<close>, \<open>bookUpdate\<close>,
  \<open>lastTrade\<close>, \<open>error\<close>) to the handlers registered for that event, and its
  \<open>subscribe\<close> and \<open>unsubscribe\<close> either resolve or reject.
\<close>

datatype 'p feedEvent =
    PriceUpdateEvent "'p priceUpdate"
  | BookUpdateEvent bookUpdate
  | LastTradeEvent "'p lastTrade"
  | ErrorEvent string

text \<open>Which of the optional callbacks the caller supplied.\<close>

record handlers =
  onPriceUpdate :: bool
  onBookUpdate :: bool
  onLastTrade :: bool
  onError :: bool
  onPairUpdate :: bool

record 'p pairUpdate =
  pairYes :: "'p priceUpdate"
  pairNo :: "'p priceUpdate"
  spread :: 'p

text \<open>A call of one of the caller's callbacks, with its argument.\<close>

datatype 'p handlerCall =
    PriceUpdateCall "'p priceUpdate"
  | BookUpdateCall bookUpdate
  | LastTradeCall "'p lastTrade"
  | ErrorCall string
  | PairUpdateCall "'p pairUpdate"

text \<open>
  The four listeners one call of \<open>subscribeMarkets\<close> attaches, with what their closures
  hold: the number \<open>n\<close> of the subscription id \<open>sub_n\<close>, the asset ids, the caller's
  callbacks and, when the call came through \<open>subscribeMarket\<close>, the two token ids with
  \<open>lastYesUpdate\<close> and \<open>lastNoUpdate\<close>.
\<close>

record 'p listener =
  listenerId :: nat
  listenerAssetIds :: "string list"
  callbacks :: handlers
  pairTokens :: "(string \<times> string) option"
  lastYesUpdate :: "'p priceUpdate option"
  lastNoUpdate :: "'p priceUpdate option"

record 'p realtimeService =
  listeners :: "'p listener list"
  subscriptions :: "(nat \<times> string list) list"
  subscriptionIdCounter :: nat

definition checkPairUpdate :: "('p::plus) listener \<Rightarrow> 'p handlerCall list" where
  "checkPairUpdate l =
     (case (lastYesUpdate l, lastNoUpdate l) of
        (Some y, Some n) \<Rightarrow>
          if onPairUpdate (callbacks l)
          then [PairUpdateCall \<lparr> pairYes = y, pairNo = n, spread = price y + price n \<rparr>]
          else []
      | _ \<Rightarrow> [])"

text \<open>
  The \<open>onPriceUpdate\<close> a listener's price handler calls once the asset filter has let
  the update through: the caller's own callback for \<open>subscribeMarkets\<close>, the pairing
  closure for \<open>subscribeMarket\<close>.
\<close>

definition priceCallback ::
  "('p::plus) priceUpdate \<Rightarrow> 'p listener \<Rightarrow> 'p listener \<times> 'p handlerCall list" where
  "priceCallback u l =
     (case pairTokens l of
        None \<Rightarrow> (l, if onPriceUpdate (callbacks l) then [PriceUpdateCall u] else [])
      | Some (yesTokenId, noTokenId) \<Rightarrow>
          let l1 = (if priceAssetId u = yesTokenId then l\<lparr> lastYesUpdate := Some u \<rparr>
                    else if priceAssetId u = noTokenId then l\<lparr> lastNoUpdate := Some u \<rparr>
                    else l)
          in (l1,
              (if onPriceUpdate (callbacks l1) then [PriceUpdateCall u] else [])
                @ checkPairUpdate l1))"

fun dispatch ::
  "('p::plus) feedEvent \<Rightarrow> 'p listener \<Rightarrow> 'p listener \<times> 'p handlerCall list" where
  "dispatch (PriceUpdateEvent u) l =
     (if priceAssetId u \<in> set (listenerAssetIds l) then priceCallback u l else (l, []))"
| "dispatch (BookUpdateEvent u) l =
     (if bookAssetId u \<in> set (listenerAssetIds l)
      then (l, if onBookUpdate (callbacks l) then [BookUpdateCall u] else [])
      else (l, []))"
| "dispatch (LastTradeEvent t) l =
     (if tradeAssetId t \<in> set (listenerAssetIds l)
      then (l, if onLastTrade (callbacks l) then [LastTradeCall t] else [])
      else (l, []))"
| "dispatch (ErrorEvent e) l =
     (l, if onError (callbacks l) then [ErrorCall e] else [])"

text \<open>
  An event of the manager reaches the attached listeners in the order of attachment;
  every callback call is returned with the number of the subscription it belongs to.
\<close>

fun emitToListeners ::
  "('p::plus) feedEvent \<Rightarrow> 'p listener list
     \<Rightarrow> 'p listener list \<times> (nat \<times> 'p handlerCall) list" where
  "emitToListeners ev [] = ([], [])"
| "emitToListeners ev (l # ls) =
     (case dispatch ev l of
        (l1, calls) \<Rightarrow>
          (case emitToListeners ev ls of
             (ls1, rest) \<Rightarrow> (l1 # ls1, map (Pair (listenerId l)) calls @ rest)))"

definition emitFeedEvent ::
  "('p::plus) feedEvent \<Rightarrow> 'p realtimeService
     \<Rightarrow> 'p realtimeService \<times> (nat \<times> 'p handlerCall) list" where
  "emitFeedEvent ev svc =
     (case emitToListeners ev (listeners svc) of
        (ls, calls) \<Rightarrow> (svc\<lparr> listeners := ls \<rparr>, calls))"

text \<open>
  The body of \<open>subscribeMarkets\<close>: the counter is advanced, the four listeners are
  attached, then the manager's \<open>subscribe\<close> is awaited; \<open>accepted\<close> tells whether it
  resolved. When it rejects, the listeners are attached already and the call throws
  (\<open>None\<close>) before the subscription is recorded. \<open>pair\<close> is \<open>None\<close> for a direct call
  and holds the two token ids when \<open>subscribeMarket\<close> makes the call with its pairing
  closure as \<open>onPriceUpdate\<close>.
\<close>

definition attach ::
  "string list \<Rightarrow> handlers \<Rightarrow> (string \<times> string) option \<Rightarrow> bool \<Rightarrow> 'p realtimeService
     \<Rightarrow> 'p realtimeService \<times> nat option" where
  "attach assetIds h pair accepted svc =
     (let n = subscriptionIdCounter svc + 1;
          svc1 = svc\<lparr> subscriptionIdCounter := n,
                      listeners := listeners svc @
                        [\<lparr> listenerId = n, listenerAssetIds = assetIds, callbacks = h,
                           pairTokens = pair, lastYesUpdate = None, lastNoUpdate = None \<rparr>] \<rparr>
      in if accepted
         then (svc1\<lparr> subscriptions := subscriptions svc1 @ [(n, assetIds)] \<rparr>, Some n)
         else (svc1, None))"

definition subscribeMarkets ::
  "string list \<Rightarrow> handlers \<Rightarrow> bool \<Rightarrow> 'p realtimeService \<Rightarrow> 'p realtimeService \<times> nat option" where
  "subscribeMarkets assetIds h accepted svc = attach assetIds h None accepted svc"

definition subscribeMarket ::
  "string \<Rightarrow> string \<Rightarrow> handlers \<Rightarrow> bool \<Rightarrow> 'p realtimeService
     \<Rightarrow> 'p realtimeService \<times> nat option" where
  "subscribeMarket yesTokenId noTokenId h accepted svc =
     attach [yesTokenId, noTokenId] h (Some (yesTokenId, noTokenId)) accepted svc"

definition unsubscribe :: "nat \<Rightarrow> bool \<Rightarrow> 'p realtimeService \<Rightarrow> 'p realtimeService" where
  "unsubscribe n accepted svc =
     (let svc1 = svc\<lparr> listeners := filter (\<lambda>l. listenerId l \<noteq> n) (listeners svc) \<rparr>
      in if accepted
         then svc1\<lparr> subscriptions := filter (\<lambda>sub. fst sub \<noteq> n) (subscriptions svc1) \<rparr>
         else svc1)"

definition newRealtimeService :: "'p realtimeService" where
  "newRealtimeService = \<lparr> listeners = [], subscriptions = [], subscriptionIdCounter = 0 \<rparr>"

text \<open>A sequence of events of the manager through one listener.\<close>

fun feedListener ::
  "('p::plus) feedEvent list \<Rightarrow> 'p listener \<Rightarrow> 'p listener \<times> 'p handlerCall list" where
  "feedListener [] l = (l, [])"
| "feedListener (ev # evs) l =
     (case dispatch ev l of
        (l1, calls) \<Rightarrow>
          (case feedListener evs l1 of (l2, rest) \<Rightarrow> (l2, calls @ rest)))"

text \<open>The price updates among the events, and the latest of them for an asset.\<close>

fun priceUpdates :: "'p feedEvent list \<Rightarrow> 'p priceUpdate list" where
  "priceUpdates [] = []"
| "priceUpdates (PriceUpdateEvent u # evs) = u # priceUpdates evs"
| "priceUpdates (other # evs) = priceUpdates evs"

definition latestFor :: "string \<Rightarrow> 'p priceUpdate list \<Rightarrow> 'p priceUpdate option" where
  "latestFor a us =
     (case filter (\<lambda>u. priceAssetId u = a) us of
        [] \<Rightarrow> None
      | v # vs \<Rightarrow> Some (last (v # vs)))"

fun feedAssetId :: "'p feedEvent \<Rightarrow> string option" where
  "feedAssetId (PriceUpdateEvent u) = Some (priceAssetId u)"
| "feedAssetId (BookUpdateEvent u) = Some (bookAssetId u)"
| "feedAssetId (LastTradeEvent t) = Some (tradeAssetId t)"
| "feedAssetId (ErrorEvent e) = None"

text \<open>
  A service to run the definitions on: one subscription over the assets \<open>a\<close> and \<open>b\<close>
  made with \<open>subscribeMarkets\<close>, then the market of the tokens \<open>y\<close> and \<open>n\<close> made with
  \<open>subscribeMarket\<close>, every callback supplied.
\<close>

definition allHandlers :: handlers where
  "allHandlers =
     \<lparr> onPriceUpdate = True, onBookUpdate = True, onLastTrade = True, onError = True,
       onPairUpdate = True \<rparr>"

definition exampleService :: "rat realtimeService" where
  "exampleService =
     fst (subscribeMarket ''y'' ''n'' allHandlers True
            (fst (subscribeMarkets [''a'', ''b''] allHandlers True newRealtimeService)))"

definition examplePrice :: "string \<Rightarrow> rat \<Rightarrow> rat priceUpdate" where
  "examplePrice a p = \<lparr> priceAssetId = a, price = p \<rparr>"

section \<open>Wallet service\<close>

subsection \<open>Numbers of the host\<close>

text \<open>
  A number of the host is an IEEE 754 double: a finite value, one of the two
  infinities, or NaN. A finite value is kept as the rational it stands for. A zero is
  kept without its sign: the score never divides by a number that can be zero, so the
  sign of a zero changes no result by more than the sign of a zero.
\<close>

datatype double = Finite rat | PosInf | NegInf | NaN

text \<open>
  Every arithmetic operation of the host computes the exact result and rounds it to a
  double. The operations below take the rounding as a parameter, so that the bounds of
  the score rest on three properties of it, collected in \<open>ieeeRounding\<close>: it never
  gives NaN, it is monotone, and it leaves an integer below \<open>2 ^ 53\<close> in magnitude as it
  is. The rounding of the host is \<open>binary64\<close> further down: to the nearest double, a tie
  going to the even one, beyond the largest double to an infinity.
\<close>

type_synonym rounding = "rat \<Rightarrow> double"

text \<open>\<open>x <= y\<close> and \<open>x < y\<close> on numbers: false as soon as one side is NaN.\<close>

fun numberLessEq :: "double \<Rightarrow> double \<Rightarrow> bool" where
  "numberLessEq (Finite a) (Finite b) = (a \<le> b)"
| "numberLessEq NaN y = False"
| "numberLessEq x NaN = False"
| "numberLessEq NegInf y = True"
| "numberLessEq x PosInf = True"
| "numberLessEq PosInf y = False"
| "numberLessEq x NegInf = False"

fun numberLess :: "double \<Rightarrow> double \<Rightarrow> bool" where
  "numberLess (Finite a) (Finite b) = (a < b)"
| "numberLess NaN y = False"
| "numberLess x NaN = False"
| "numberLess PosInf y = False"
| "numberLess x NegInf = False"
| "numberLess NegInf y = True"
| "numberLess x PosInf = True"

definition ieeeRounding :: "rounding \<Rightarrow> bool" where
  "ieeeRounding rnd =
     ((\<forall>q. rnd q \<noteq> NaN)
      \<and> (\<forall>q q'. q \<le> q' \<longrightarrow> numberLessEq (rnd q) (rnd q'))
      \<and> (\<forall>k::int. \<bar>k\<bar> < 2 ^ 53 \<longrightarrow> rnd (of_int k) = Finite (of_int k)))"

fun fneg :: "double \<Rightarrow> double" where
  "fneg (Finite a) = Finite (- a)"
| "fneg PosInf = NegInf"
| "fneg NegInf = PosInf"
| "fneg NaN = NaN"

text \<open>\<open>x + y\<close>.\<close>

fun fadd :: "rounding \<Rightarrow> double \<Rightarrow> double \<Rightarrow> double" where
  "fadd rnd (Finite a) (Finite b) = rnd (a + b)"
| "fadd rnd NaN y = NaN"
| "fadd rnd x NaN = NaN"
| "fadd rnd PosInf NegInf = NaN"
| "fadd rnd NegInf PosInf = NaN"
| "fadd rnd PosInf y = PosInf"
| "fadd rnd x PosInf = PosInf"
| "fadd rnd NegInf y = NegInf"
| "fadd rnd x NegInf = NegInf"

text \<open>\<open>x - y\<close>.\<close>

definition fsub :: "rounding \<Rightarrow> double \<Rightarrow> double \<Rightarrow> double" where
  "fsub rnd x y = fadd rnd x (fneg y)"

text \<open>\<open>x * y\<close>: an infinity times zero is NaN.\<close>

fun fmul :: "rounding \<Rightarrow> double \<Rightarrow> double \<Rightarrow> double" where
  "fmul rnd (Finite a) (Finite b) = rnd (a * b)"
| "fmul rnd NaN y = NaN"
| "fmul rnd x NaN = NaN"
| "fmul rnd PosInf (Finite b) = (if b = 0 then NaN else if 0 < b then PosInf else NegInf)"
| "fmul rnd NegInf (Finite b) = (if b = 0 then NaN else if 0 < b then NegInf else PosInf)"
| "fmul rnd (Finite a) PosInf = (if a = 0 then NaN else if 0 < a then PosInf else NegInf)"
| "fmul rnd (Finite a) NegInf = (if a = 0 then NaN else if 0 < a then NegInf else PosInf)"
| "fmul rnd PosInf PosInf = PosInf"
| "fmul rnd NegInf NegInf = PosInf"
| "fmul rnd PosInf NegInf = NegInf"
| "fmul rnd NegInf PosInf = NegInf"

text \<open>
  \<open>x / y\<close>: zero by zero and an infinity by an infinity are NaN, any other finite number
  by zero is an infinity.
\<close>

fun fdiv :: "rounding \<Rightarrow> double \<Rightarrow> double \<Rightarrow> double" where
  "fdiv rnd (Finite a) (Finite b) =
     (if b = 0 then (if a = 0 then NaN else if 0 < a then PosInf else NegInf)
      else rnd (a / b))"
| "fdiv rnd NaN y = NaN"
| "fdiv rnd x NaN = NaN"
| "fdiv rnd PosInf (Finite b) = (if 0 \<le> b then PosInf else NegInf)"
| "fdiv rnd NegInf (Finite b) = (if 0 \<le> b then NegInf else PosInf)"
| "fdiv rnd (Finite a) y = Finite 0"
| "fdiv rnd x y = NaN"

text \<open>\<open>Math.max(x, y)\<close> and \<open>Math.min(x, y)\<close>: NaN as soon as one argument is.\<close>

definition mathMax :: "double \<Rightarrow> double \<Rightarrow> double" where
  "mathMax x y = (if x = NaN \<or> y = NaN then NaN else if numberLessEq x y then y else x)"

definition mathMin :: "double \<Rightarrow> double \<Rightarrow> double" where
  "mathMin x y = (if x = NaN \<or> y = NaN then NaN else if numberLessEq x y then x else y)"

text \<open>\<open>Math.round(x)\<close>: the nearest integer, a half going up.\<close>

fun mathRound :: "double \<Rightarrow> double" where
  "mathRound (Finite a) = Finite (of_int \<lfloor>a + 1 / 2\<rfloor>)"
| "mathRound x = x"

text \<open>\<open>Math.pow(x, 2)\<close>, taken as the rounded square.\<close>

fun mathPow2 :: "rounding \<Rightarrow> double \<Rightarrow> double" where
  "mathPow2 rnd (Finite a) = rnd (a * a)"
| "mathPow2 rnd NaN = NaN"
| "mathPow2 rnd x = PosInf"

text \<open>\<open>x || 0\<close> on an optional number: an absent field, NaN and zero give zero.\<close>

fun orZero :: "double option \<Rightarrow> double" where
  "orZero None = Finite 0"
| "orZero (Some NaN) = Finite 0"
| "orZero (Some x) = x"

text \<open>The length of an array as a number.\<close>

definition lengthNumber :: "'a list \<Rightarrow> double" where
  "lengthNumber xs = Finite (of_nat (length xs))"

text \<open>\<open>xs.reduce((sum, x) => sum + f(x), 0)\<close>.\<close>

definition reduceSum :: "rounding \<Rightarrow> ('a \<Rightarrow> double) \<Rightarrow> 'a list \<Rightarrow> double" where
  "reduceSum rnd f xs = foldl (\<lambda>sum x. fadd rnd sum (f x)) (Finite 0) xs"

text \<open>
  The time value of \<open>new Date(t)\<close>: \<open>t\<close> cut to an integer towards zero, NaN when
  \<open>t\<close> is not finite or beyond 8.64e15 in magnitude.
\<close>

fun timeClip :: "double \<Rightarrow> double" where
  "timeClip (Finite t) =
     (if 8640000000000000 < \<bar>t\<bar> then NaN
      else Finite (of_int (if 0 \<le> t then \<lfloor>t\<rfloor> else \<lceil>t\<rceil>)))"
| "timeClip x = NaN"

subsection \<open>Rounding to the nearest double\<close>

text \<open>The nearest integer, a tie going to the even one.\<close>

definition roundHalfEven :: "rat \<Rightarrow> int" where
  "roundHalfEven x =
     (let f = \<lfloor>x\<rfloor>; d = x - of_int f
      in if d < 1 / 2 then f
         else if 1 / 2 < d then f + 1
         else if even f then f else f + 1)"

text \<open>
  The spacing of the doubles around \<open>q \<ge> 0\<close>: the least power of two \<open>u\<close>, from
  \<open>2 ^ -1074\<close> up to \<open>2 ^ 971\<close>, with \<open>q < 2 ^ 53 * u\<close>, and \<open>2 ^ 971\<close> when there is
  none.
\<close>

fun quantumFrom :: "nat \<Rightarrow> rat \<Rightarrow> rat \<Rightarrow> rat" where
  "quantumFrom 0 q u = u"
| "quantumFrom (Suc n) q u = (if q < 2 ^ 53 * u then u else quantumFrom n q (2 * u))"

definition quantum :: "rat \<Rightarrow> rat" where
  "quantum q = quantumFrom 2045 q (1 / 2 ^ 1074)"

definition roundNonneg :: "rat \<Rightarrow> double" where
  "roundNonneg q =
     (let u = quantum q; v = of_int (roundHalfEven (q / u)) * u
      in if 2 ^ 1024 \<le> v then PosInf else Finite v)"

definition binary64 :: rounding where
  "binary64 q = (if q < 0 then fneg (roundNonneg (- q)) else roundNonneg q)"

subsection \<open>The smart score\<close>

text \<open>
  Of a position and of an activity, the fields the service reads. The clock of the host
  is read once for every activity the score looks at: \<open>clock i\<close> is the reading, in
  whole milliseconds, made for the activity at index \<open>i\<close>.
\<close>

record position =
  conditionId :: string
  cashPnl :: "double option"
  percentPnl :: "double option"
  realizedPnl :: "double option"

datatype activityType = TRADE | SPLIT | MERGE | REDEEM | CONVERSION

record activity =
  activityType :: activityType
  activityTimestamp :: double

record walletProfile =
  address :: string
  totalPnL :: double
  realizedPnL :: double
  unrealizedPnL :: double
  avgPercentPnL :: double
  positionCount :: nat
  tradeCount :: nat
  smartScore :: double
  lastActiveAt :: double

definition calculateVariance :: "rounding \<Rightarrow> double list \<Rightarrow> double" where
  "calculateVariance rnd vals =
     (if length vals = 0 then Finite 0
      else
        let mean = fdiv rnd (reduceSum rnd (\<lambda>v. v) vals) (lengthNumber vals)
        in fdiv rnd (reduceSum rnd (\<lambda>v. mathPow2 rnd (fsub rnd v mean)) vals)
             (lengthNumber vals))"

definition pnlScore :: "rounding \<Rightarrow> position list \<Rightarrow> double" where
  "pnlScore rnd positions =
     (let avgPnL = (if 0 < length positions
                    then fdiv rnd (reduceSum rnd (\<lambda>p. orZero (percentPnl p)) positions)
                           (lengthNumber positions)
                    else Finite 0)
      in mathMin (Finite 40)
           (mathMax (Finite 0)
              (fmul rnd (fdiv rnd (fadd rnd avgPnL (Finite 50)) (Finite 100)) (Finite 40))))"

definition winRateScore :: "rounding \<Rightarrow> position list \<Rightarrow> double" where
  "winRateScore rnd positions =
     (let winningPositions = filter (\<lambda>p. numberLess (Finite 0) (orZero (cashPnl p))) positions;
          winRate = (if 0 < length positions
                     then fdiv rnd (lengthNumber winningPositions) (lengthNumber positions)
                     else Finite 0)
      in fmul rnd winRate (Finite 30))"

definition consistencyScore :: "rounding \<Rightarrow> position list \<Rightarrow> double" where
  "consistencyScore rnd positions =
     (let pnlValues = map (\<lambda>p. orZero (percentPnl p)) positions;
          variance = calculateVariance rnd pnlValues
      in mathMax (Finite 0) (fsub rnd (Finite 20) (fdiv rnd variance (Finite 10))))"

definition activityScore :: "rounding \<Rightarrow> (nat \<Rightarrow> int) \<Rightarrow> activity list \<Rightarrow> double" where
  "activityScore rnd clock activities =
     (let recentTrades =
            filter (\<lambda>(i, a). numberLess (Finite (of_int (clock i - 7 * 24 * 60 * 60 * 1000)))
                                (activityTimestamp a))
              (enumerate 0 activities)
      in mathMin (Finite 10) (fmul rnd (fdiv rnd (lengthNumber recentTrades) (Finite 5)) (Finite 10)))"

definition calculateSmartScore ::
  "rounding \<Rightarrow> (nat \<Rightarrow> int) \<Rightarrow> position list \<Rightarrow> activity list \<Rightarrow> double" where
  "calculateSmartScore rnd clock positions activities =
     mathRound
       (fadd rnd
          (fadd rnd (fadd rnd (pnlScore rnd positions) (winRateScore rnd positions))
             (consistencyScore rnd positions))
          (activityScore rnd clock activities))"

text \<open>
  \<open>getWalletProfile\<close>, given what the two requests to the data API resolved to.
\<close>

definition getWalletProfile ::
  "rounding \<Rightarrow> (nat \<Rightarrow> int) \<Rightarrow> string \<Rightarrow> position list \<Rightarrow> activity list \<Rightarrow> walletProfile" where
  "getWalletProfile rnd clock addr positions activities =
     (let total = reduceSum rnd (\<lambda>p. orZero (cashPnl p)) positions;
          realized = reduceSum rnd (\<lambda>p. orZero (realizedPnl p)) positions
      in \<lparr> address = addr,
           totalPnL = total,
           realizedPnL = realized,
           unrealizedPnL = fsub rnd total realized,
           avgPercentPnL =
             (if 0 < length positions
              then fdiv rnd (reduceSum rnd (\<lambda>p. orZero (percentPnl p)) positions)
                     (lengthNumber positions)
              else Finite 0),
           positionCount = length positions,
           tradeCount = length (filter (\<lambda>a. activityType a = TRADE) activities),
           smartScore = calculateSmartScore rnd clock positions activities,
           lastActiveAt =
             (case activities of [] \<Rightarrow> Finite 0 | a # rest \<Rightarrow> timeClip (activityTimestamp a)) \<rparr>)"

text \<open>
  A number is finite when it is neither an infinity nor NaN; a field is finite when it
  is absent or holds a finite number.
\<close>

fun finiteNumber :: "double \<Rightarrow> bool" where
  "finiteNumber (Finite a) = True"
| "finiteNumber x = False"

definition finiteField :: "double option \<Rightarrow> bool" where
  "finiteField v = (case v of None \<Rightarrow> True | Some x \<Rightarrow> finiteNumber x)"

definition finiteFields :: "position list \<Rightarrow> activity list \<Rightarrow> bool" where
  "finiteFields positions activities =
     (list_all (\<lambda>p. finiteField (cashPnl p) \<and> finiteField (percentPnl p)
                     \<and> finiteField (realizedPnl p)) positions
      \<and> list_all (\<lambda>a. finiteNumber (activityTimestamp a)) activities)"

text \<open>A number that is an integer from \<open>lo\<close> to \<open>hi\<close>, and one that lies from \<open>lo\<close> to \<open>hi\<close>.\<close>

fun integerWithin :: "int \<Rightarrow> int \<Rightarrow> double \<Rightarrow> bool" where
  "integerWithin lo hi (Finite a) = (a = of_int \<lfloor>a\<rfloor> \<and> of_int lo \<le> a \<and> a \<le> of_int hi)"
| "integerWithin lo hi x = False"

fun numberWithin :: "int \<Rightarrow> int \<Rightarrow> double \<Rightarrow> bool" where
  "numberWithin lo hi (Finite a) = (of_int lo \<le> a \<and> a \<le> of_int hi)"
| "numberWithin lo hi x = False"

text \<open>
  Two positions and six activities to run the score on. The clock stands at two weeks
  (in milliseconds) after the epoch: five activities of the last week, one older.
\<close>

definition examplePositions :: "position list" where
  "examplePositions =
     [\<lparr> conditionId = ''0x0a'', cashPnl = Some (Finite 7), percentPnl = Some (Finite 140),
        realizedPnl = None \<rparr>,
      \<lparr> conditionId = ''0x0b'', cashPnl = Some (Finite 2), percentPnl = Some (Finite 160),
        realizedPnl = Some (Finite 1) \<rparr>]"

definition exampleActivities :: "activity list" where
  "exampleActivities =
     [\<lparr> activityType = TRADE, activityTimestamp = Finite 1209000000 \<rparr>,
      \<lparr> activityType = TRADE, activityTimestamp = Finite 1208000000 \<rparr>,
      \<lparr> activityType = REDEEM, activityTimestamp = Finite 1207000000 \<rparr>,
      \<lparr> activityType = TRADE, activityTimestamp = Finite 1206000000 \<rparr>,
      \<lparr> activityType = TRADE, activityTimestamp = Finite 1205000000 \<rparr>,
      \<lparr> activityType = TRADE, activityTimestamp = Finite 1000 \<rparr>]"

definition exampleClock :: "nat \<Rightarrow> int" where
  "exampleClock i = 1209600000 + int i"

section \<open>Facts about the chain monitor's state machine\<close>

lemma processEvent_state:
  "\<exists>st. fst (processEvent bn cfg now ev m) = m\<lparr> stats := st \<rparr>
        \<and> connected st = connected (stats m) \<and> mode st = mode (stats m)"
proof -
  have "fst (processEvent bn cfg now ev m) = m
      \<or> fst (processEvent bn cfg now ev m) =
          m\<lparr> stats := (stats m)\<lparr> eventsObserved := eventsObserved (stats m) + 1,
                                   lastEventAt := Some now,
                                   currentBlock := Some (blockNumber ev) \<rparr> \<rparr>"
    unfolding processEvent_def Let_def by (simp split: option.splits)
  then show ?thesis
  proof
    assume "fst (processEvent bn cfg now ev m) = m"
    then have "fst (processEvent bn cfg now ev m) = m\<lparr> stats := stats m \<rparr>" by simp
    then show ?thesis by blast
  next
    assume "fst (processEvent bn cfg now ev m) =
          m\<lparr> stats := (stats m)\<lparr> eventsObserved := eventsObserved (stats m) + 1,
                                   lastEventAt := Some now,
                                   currentBlock := Some (blockNumber ev) \<rparr> \<rparr>"
    then have "fst (processEvent bn cfg now ev m) =
          m\<lparr> stats := (stats m)\<lparr> eventsObserved := eventsObserved (stats m) + 1,
                                   lastEventAt := Some now,
                                   currentBlock := Some (blockNumber ev) \<rparr> \<rparr>
        \<and> connected ((stats m)\<lparr> eventsObserved := eventsObserved (stats m) + 1,
                                   lastEventAt := Some now,
                                   currentBlock := Some (blockNumber ev) \<rparr>) = connected (stats m)
        \<and> mode ((stats m)\<lparr> eventsObserved := eventsObserved (stats m) + 1,
                                   lastEventAt := Some now,
                                   currentBlock := Some (blockNumber ev) \<rparr>) = mode (stats m)"
      by simp
    then show ?thesis by blast
  qed
qed

lemma processEvents_state:
  "\<exists>st. fst (processEvents bn cfg now evs m) = m\<lparr> stats := st \<rparr>
        \<and> connected st = connected (stats m) \<and> mode st = mode (stats m)"
proof (induction evs arbitrary: m)
  case Nil
  have "fst (processEvents bn cfg now [] m) = m\<lparr> stats := stats m \<rparr>" by simp
  then show ?case by blast
next
  case (Cons ev evs)
  obtain st where one: "fst (processEvent bn cfg now ev m) = m\<lparr> stats := st \<rparr>"
      and kept: "connected st = connected (stats m)" "mode st = mode (stats m)"
    using processEvent_state by blast
  obtain st' where rest:
      "fst (processEvents bn cfg now evs (m\<lparr> stats := st \<rparr>)) = m\<lparr> stats := st, stats := st' \<rparr>"
      and kept': "connected st' = connected st" "mode st' = mode st"
    using Cons.IH [of "m\<lparr> stats := st \<rparr>"] by auto
  have "fst (processEvents bn cfg now (ev # evs) m) = m\<lparr> stats := st \<rparr>
      \<or> fst (processEvents bn cfg now (ev # evs) m) = m\<lparr> stats := st' \<rparr>"
    using one rest
    by (cases "processEvent bn cfg now ev m")
       (auto split: option.splits prod.splits)
  with kept kept' show ?case by auto
qed

lemma pollNewBlocks_state:
  "\<exists>st b. fst (pollNewBlocks bn cfg now height qf m) = m\<lparr> stats := st, lastScannedBlock := b \<rparr>
        \<and> connected st = connected (stats m) \<and> mode st = mode (stats m)"
proof (cases "\<exists>latest events. height = Some latest \<and> httpProvider m \<noteq> None \<and> isRunning m
      \<and> lastScannedBlock m < latest
      \<and> getHistoricalTransfers qf m (lastScannedBlock m + 1) latest = Inr events")
  case False
  then have "fst (pollNewBlocks bn cfg now height qf m) = m"
    unfolding pollNewBlocks_def by (auto split: option.splits sum.splits)
  then have "fst (pollNewBlocks bn cfg now height qf m)
      = m\<lparr> stats := stats m, lastScannedBlock := lastScannedBlock m \<rparr>" by simp
  then show ?thesis by blast
next
  case True
  then obtain latest events where h: "height = Some latest" "httpProvider m \<noteq> None" "isRunning m"
      "lastScannedBlock m < latest"
      "getHistoricalTransfers qf m (lastScannedBlock m + 1) latest = Inr events" by blast
  obtain st where st: "fst (processEvents bn cfg now events m) = m\<lparr> stats := st \<rparr>"
      and kept: "connected st = connected (stats m)" "mode st = mode (stats m)"
    using processEvents_state by blast
  show ?thesis
  proof (cases "processEvents bn cfg now events m")
    case (fields m1 out r)
    with st have m1: "m1 = m\<lparr> stats := st \<rparr>" by simp
    show ?thesis
    proof (cases r)
      case None
      with fields h m1 have "fst (pollNewBlocks bn cfg now height qf m) =
          m\<lparr> stats := st\<lparr> currentBlock := Some latest \<rparr>, lastScannedBlock := latest \<rparr>"
        unfolding pollNewBlocks_def by auto
      with kept have "fst (pollNewBlocks bn cfg now height qf m) =
          m\<lparr> stats := st\<lparr> currentBlock := Some latest \<rparr>, lastScannedBlock := latest \<rparr>
          \<and> connected (st\<lparr> currentBlock := Some latest \<rparr>) = connected (stats m)
          \<and> mode (st\<lparr> currentBlock := Some latest \<rparr>) = mode (stats m)"
        by simp
      then show ?thesis by blast
    next
      case (Some e)
      with fields h m1 have "fst (pollNewBlocks bn cfg now height qf m) =
          m\<lparr> stats := st, lastScannedBlock := lastScannedBlock m \<rparr>"
        unfolding pollNewBlocks_def by auto
      with kept show ?thesis by blast
    qed
  qed
qed

lemma perform_invariant:
  assumes "monitorInvariant m"
  shows "monitorInvariant (fst (perform bn cfg op m))"
proof (cases op)
  case (OpConnect now height ws)
  with assms show ?thesis
    by (cases ws)
       (auto simp: monitorInvariant_def connect_def connectWebSocket_def startPolling_def Let_def
             split: option.splits)
next
  case OpDisconnect
  then show ?thesis by (simp add: monitorInvariant_def disconnect_def)
next
  case OpSocketClosed
  with assms show ?thesis
    by (auto simp: monitorInvariant_def handleDisconnect_def startPolling_def Let_def)
next
  case (OpReconnectTimer ws)
  with assms show ?thesis
    by (cases ws)
       (auto simp: monitorInvariant_def reconnectCallback_def connectWebSocket_def
                   startPolling_def)
next
  case (OpPollTick now height qf)
  obtain st b where "fst (pollNewBlocks bn cfg now height qf m) = m\<lparr> stats := st, lastScannedBlock := b \<rparr>"
      "connected st = connected (stats m)"
    using pollNewBlocks_state by blast
  with assms OpPollTick show ?thesis by (simp add: monitorInvariant_def)
next
  case (OpEvent now ev)
  obtain st where "fst (processEvent bn cfg now ev m) = m\<lparr> stats := st \<rparr>"
      "connected st = connected (stats m)"
    using processEvent_state by blast
  with assms OpEvent show ?thesis
    by (cases "processEvent bn cfg now ev m") (simp add: monitorInvariant_def)
qed

lemma runOperations_invariant:
  "monitorInvariant m \<Longrightarrow> monitorInvariant (runOperations bn cfg ops m)"
  by (induction ops arbitrary: m) (simp_all add: perform_invariant)

lemma newMonitor_invariant: "monitorInvariant newMonitor"
  by (simp add: monitorInvariant_def newMonitor_def)



lemma perform_httpProvider:
  assumes "monitorInvariant m"
  shows "(httpProvider (fst (perform bn cfg op m)) = None) = (httpProvider m = None \<and> \<not> isConnect op)"
proof (cases op)
  case (OpConnect now height ws)
  with assms show ?thesis
    by (cases ws)
       (auto simp: monitorInvariant_def connect_def connectWebSocket_def startPolling_def Let_def
             split: option.splits)
next
  case OpDisconnect
  then show ?thesis by (simp add: disconnect_def)
next
  case OpSocketClosed
  then show ?thesis
    by (auto simp: handleDisconnect_def startPolling_def Let_def)
next
  case (OpReconnectTimer ws)
  then show ?thesis
    by (cases ws)
       (auto simp: reconnectCallback_def connectWebSocket_def startPolling_def)
next
  case (OpPollTick now height qf)
  obtain st b where "fst (pollNewBlocks bn cfg now height qf m) = m\<lparr> stats := st, lastScannedBlock := b \<rparr>"
    using pollNewBlocks_state by blast
  with OpPollTick show ?thesis by simp
next
  case (OpEvent now ev)
  obtain st where "fst (processEvent bn cfg now ev m) = m\<lparr> stats := st \<rparr>"
    using processEvent_state by blast
  with OpEvent show ?thesis
    by (cases "processEvent bn cfg now ev m") simp
qed

lemma runOperations_httpProvider:
  "monitorInvariant m \<Longrightarrow>
     (httpProvider (runOperations bn cfg ops m) = None)
       = (httpProvider m = None \<and> filter isConnect ops = [])"
proof (induction ops arbitrary: m)
  case Nil
  then show ?case by simp
next
  case (Cons op ops)
  have "monitorInvariant (fst (perform bn cfg op m))"
    using Cons.prems by (rule perform_invariant)
  from Cons.IH [OF this] perform_httpProvider [OF Cons.prems, of bn cfg op]
  show ?case by auto
qed

lemma getHistoricalTransfers_NotConnected:
  "(getHistoricalTransfers qf m fromBlock toBlock = Inl NotConnected) = (httpProvider m = None)"
  by (simp add: getHistoricalTransfers_def split: option.splits)

section \<open>The example monitor\<close>

lemmas example_defs =
  exampleConfig_def makeConfig_def orElseString_def orElseNat_def nullishBool_def
  newMonitor_def httpUrl_def wsUrl_def pushMonitor_def

lemma exampleConfig_fields:
  "wsEnabled exampleConfig" "autoReconnect exampleConfig"
  "maxReconnectAttempts exampleConfig = 3" "minTransferValue exampleConfig = ''1000''"
  "pollingIntervalMs exampleConfig = 3000"
  by (simp_all add: example_defs)

lemma pushMonitor_fields:
  "isRunning pushMonitor" "currentMode pushMonitor = Websocket" "pollingTimer pushMonitor = None"
  "reconnectAttempts pushMonitor = 0" "httpProvider pushMonitor \<noteq> None"
  "connected (stats pushMonitor)"
  by (simp_all add: example_defs connect_def connectWebSocket_def Let_def)

lemma parse_exampleLog:
  "parseLogs [] = []"
  "parseLogs (exampleLog ''0x01'' 108 1500 # rest) = exampleTransfer ''0x01'' 108 ''1500'' # parseLogs rest"
  "parseLogs (exampleLog ''0x03'' 101 500 # rest) = exampleTransfer ''0x03'' 101 ''500'' # parseLogs rest"
  "parseLogs (exampleLog ''0x04'' 105 3000 # rest) = exampleTransfer ''0x04'' 105 ''3000'' # parseLogs rest"
  by (simp_all add: parseLogs_def List.map_filter_simps parseTransferLog_def exampleLog_def
        exampleTransfer_def toLowerCase_def toLowerChar_def toStringNat.simps digitChar_def)

lemma parse_decimal_examples:
  "bigNumberFromDecimal ''1000'' = Some 1000"
  "bigNumberFromDecimal ''500'' = Some 500"
  "bigNumberFromDecimal ''1500'' = Some 1500"
  by (simp_all add: bigNumberFromDecimal_def decDigit_def)

lemma exampleEvent_pipeline:
  "processEvent bigNumberFromDecimal exampleConfig now (exampleEvent ''1500'') m
     = (m\<lparr> stats := (stats m)\<lparr> eventsObserved := eventsObserved (stats m) + 1,
                              lastEventAt := Some now, currentBlock := Some 100 \<rparr> \<rparr>,
        [EmitTransfer (exampleEvent ''1500'')], None)"
  "processEvent bigNumberFromDecimal exampleConfig now (exampleEvent ''3000'') m
     = (m\<lparr> stats := (stats m)\<lparr> eventsObserved := eventsObserved (stats m) + 1,
                              lastEventAt := Some now, currentBlock := Some 100 \<rparr> \<rparr>,
        [EmitTransfer (exampleEvent ''3000'')], None)"
  "processEvent bigNumberFromDecimal exampleConfig now (exampleEvent ''500'') m = (m, [], None)"
  by (simp_all add: processEvent_def exampleConfig_fields bigNumberFromDecimal_def decDigit_def
        exampleEvent_def)

lemma twoWaitingReaders_state:
  "twoWaitingReaders =
     \<lparr> monitorOf = pushMonitor,
       readers = [newReader\<lparr> started := True, resolveNext := True, pending := 1 \<rparr>,
                  newReader\<lparr> started := True, resolveNext := True, pending := 1 \<rparr>] \<rparr>"
  by (simp add: twoWaitingReaders_def newReader_def readerNext_def serve.simps pushMonitor_fields)


section \<open>Connecting, reconnecting and shutting down\<close>

text \<open>
  Claim C3. Whatever happened to the monitor before, a \<open>connect\<close> that gets as far as
  the push connection attempt (the monitor was not running, push mode is enabled, the
  block height was fetched) and sees that attempt fail does not throw; afterwards
  \<open>getMode\<close> reports polling and \<open>isConnected\<close> reports true.
\<close>

theorem connect_push_failure_degrades_to_polling:
  assumes "m = runOperations bn cfg ops newMonitor"
    and "\<not> isRunning m" and "wsEnabled cfg" and "ws \<noteq> WsReady"
  shows "\<exists>m' out. connect cfg now (Some height) ws m = (m', out, None)
           \<and> getMode m' = Polling \<and> isConnected m'"
proof -
  have "monitorInvariant m"
    using assms(1) newMonitor_invariant runOperations_invariant by simp
  with assms(2) have timer: "pollingTimer m = None"
    by (auto simp: monitorInvariant_def)
  show ?thesis
    using assms(2-4) timer
    by (cases ws)
       (simp_all add: connect_def connectWebSocket_def startPolling_def Let_def
                      getMode_def isConnected_def)
qed

theorem connect_push_failure_degrades_to_polling_witness:
  "\<exists>m' out. connect exampleConfig 0 (Some 100) WsReadyFails newMonitor = (m', out, None)
      \<and> getMode m' = Polling \<and> isConnected m'"
proof -
  have a: "newMonitor = runOperations bigNumberFromDecimal exampleConfig [] newMonitor" by simp
  have b: "\<not> isRunning newMonitor" by (simp add: newMonitor_def)
  have c: "WsReadyFails \<noteq> WsReady" by simp
  show ?thesis
    using connect_push_failure_degrades_to_polling [OF a b exampleConfig_fields(1) c] .
qed





text \<open>
  Claim C9. \<open>disconnect\<close> stops the polling timer, tears down the push connection,
  releases both contract handles and sets the state to disconnected (mode
  \<open>disconnected\<close>, \<open>connected\<close> false); a second \<open>disconnect\<close> leaves the state as the
  first one left it, and so does the close event of the socket it tore down.
\<close>

theorem disconnect_idempotent:
  "fst (disconnect (fst (disconnect m))) = fst (disconnect m)
   \<and> pollingTimer (fst (disconnect m)) = None
   \<and> wsProvider (fst (disconnect m)) = None
   \<and> ctfContract (fst (disconnect m)) = None
   \<and> negRiskContract (fst (disconnect m)) = None
   \<and> \<not> isRunning (fst (disconnect m))
   \<and> getMode (fst (disconnect m)) = Disconnected
   \<and> mode (getStats (fst (disconnect m))) = Disconnected
   \<and> \<not> isConnected (fst (disconnect m))
   \<and> handleDisconnect cfg (fst (disconnect m)) = (fst (disconnect m), [], False)"
  by (simp add: disconnect_def getMode_def getStats_def isConnected_def handleDisconnect_def)

theorem disconnect_idempotent_witness:
  "fst (disconnect (fst (disconnect pushMonitor))) = fst (disconnect pushMonitor)
   \<and> getMode pushMonitor = Websocket
   \<and> getMode (fst (disconnect pushMonitor)) = Disconnected
   \<and> \<not> isConnected (fst (disconnect pushMonitor))"
  using disconnect_idempotent [of pushMonitor] pushMonitor_fields(2)
  by (simp add: getMode_def)

section \<open>Historical queries\<close>

text \<open>
  Claim C2 as stated fails: after \<open>connect\<close> and then \<open>disconnect\<close> the monitor is not
  connected and in mode \<open>disconnected\<close>, and \<open>getHistoricalTransfers 100 110\<close> still
  returns the three transfers of the range.
\<close>

theorem getHistoricalTransfers_after_disconnect_counterexample:
  "\<not> isConnected (fst (disconnect pushMonitor))
   \<and> getMode (fst (disconnect pushMonitor)) = Disconnected
   \<and> getHistoricalTransfers exampleNode (fst (disconnect pushMonitor)) 100 110
       = Inr [exampleTransfer ''0x03'' 101 ''500'', exampleTransfer ''0x04'' 105 ''3000'',
              exampleTransfer ''0x01'' 108 ''1500'']"
proof -
  have "httpProvider (fst (disconnect pushMonitor)) \<noteq> None"
    using pushMonitor_fields(5) by (simp add: disconnect_def)
  moreover have "exampleNode CTF_EXCHANGE 100 110
      = Some [exampleLog ''0x01'' 108 1500, exampleLog ''0x03'' 101 500]"
    by (simp add: exampleNode_def exampleLog_def)
  moreover have "exampleNode NEG_RISK_CTF_EXCHANGE 100 110 = Some [exampleLog ''0x04'' 105 3000]"
    by (simp add: exampleNode_def exampleLog_def CTF_EXCHANGE_def NEG_RISK_CTF_EXCHANGE_def)
  ultimately have "getHistoricalTransfers exampleNode (fst (disconnect pushMonitor)) 100 110
       = Inr [exampleTransfer ''0x03'' 101 ''500'', exampleTransfer ''0x04'' 105 ''3000'',
              exampleTransfer ''0x01'' 108 ''1500'']"
    by (simp add: getHistoricalTransfers_def parse_exampleLog exampleTransfer_def)
  then show ?thesis
    by (simp add: disconnect_def isConnected_def getMode_def)
qed

text \<open>
  Claim C2, amended. \<open>getHistoricalTransfers\<close> throws its \<open>Not connected\<close> error
  exactly when the monitor holds no HTTP provider, which after any run from a new
  monitor is the case exactly when \<open>connect\<close> was never invoked; \<open>disconnect\<close> leaves
  the provider in place.
\<close>

theorem getHistoricalTransfers_throws_iff_never_connected:
  "(getHistoricalTransfers qf (runOperations bn cfg ops newMonitor) fromBlock toBlock
       = Inl NotConnected) = (filter isConnect ops = [])
   \<and> (getHistoricalTransfers qf m fromBlock toBlock = Inl NotConnected) = (httpProvider m = None)
   \<and> httpProvider (fst (disconnect m)) = httpProvider m"
proof -
  have "(httpProvider (runOperations bn cfg ops newMonitor) = None) = (filter isConnect ops = [])"
    using runOperations_httpProvider [OF newMonitor_invariant, of bn cfg ops]
    by (simp add: newMonitor_def)
  then show ?thesis
    by (simp add: getHistoricalTransfers_NotConnected disconnect_def)
qed

theorem getHistoricalTransfers_throws_iff_never_connected_witness:
  "getHistoricalTransfers exampleNode
      (runOperations bigNumberFromDecimal exampleConfig
         [OpConnect 0 (Some 100) WsReady, OpDisconnect] newMonitor) 100 110 \<noteq> Inl NotConnected
   \<and> getHistoricalTransfers exampleNode
        (runOperations bigNumberFromDecimal exampleConfig [OpSocketClosed] newMonitor) 100 110
       = Inl NotConnected"
  using getHistoricalTransfers_throws_iff_never_connected
      [of exampleNode bigNumberFromDecimal exampleConfig
          "[OpConnect 0 (Some 100) WsReady, OpDisconnect]" 100 110]
    getHistoricalTransfers_throws_iff_never_connected
      [of exampleNode bigNumberFromDecimal exampleConfig "[OpSocketClosed]" 100 110]
  by simp

lemma parseLogs_blocks:
  "ev \<in> set (parseLogs logs) \<Longrightarrow> \<exists>entry \<in> set logs. blockNumber ev = logBlockNumber entry"
proof (induction logs)
  case Nil
  then show ?case by (simp add: parseLogs_def)
next
  case (Cons entry logs)
  then show ?case
    by (cases "args entry") (auto simp: parseLogs_def parseTransferLog_def)
qed

text \<open>
  Claim C6. On a connected monitor, when the node answers both queries with logs of
  the requested block range, \<open>getHistoricalTransfers\<close> returns; every returned event
  has its block number in the inclusive range, the events are exactly the parsed logs of
  the two contracts, and they are sorted by ascending block number.
\<close>

theorem getHistoricalTransfers_in_range_sorted:
  assumes "m = runOperations bn cfg ops newMonitor" and "isConnected m"
    and "qf CTF_EXCHANGE fromBlock toBlock = Some ctfLogs"
    and "qf NEG_RISK_CTF_EXCHANGE fromBlock toBlock = Some negRiskLogs"
    and "\<forall>entry \<in> set (ctfLogs @ negRiskLogs).
           fromBlock \<le> logBlockNumber entry \<and> logBlockNumber entry \<le> toBlock"
  shows "\<exists>events. getHistoricalTransfers qf m fromBlock toBlock = Inr events
           \<and> (\<forall>ev \<in> set events. fromBlock \<le> blockNumber ev \<and> blockNumber ev \<le> toBlock)
           \<and> sorted (map blockNumber events)
           \<and> mset events = mset (parseLogs ctfLogs) + mset (parseLogs negRiskLogs)"
proof -
  have "monitorInvariant m"
    using assms(1) newMonitor_invariant runOperations_invariant by simp
  with assms(2) have provider: "httpProvider m \<noteq> None"
    by (auto simp: monitorInvariant_def isConnected_def)
  define events where "events = sort_key blockNumber (parseLogs ctfLogs @ parseLogs negRiskLogs)"
  have result: "getHistoricalTransfers qf m fromBlock toBlock = Inr events"
    using provider assms(3,4) by (auto simp: getHistoricalTransfers_def events_def)
  have "\<forall>ev \<in> set events. fromBlock \<le> blockNumber ev \<and> blockNumber ev \<le> toBlock"
  proof
    fix ev assume "ev \<in> set events"
    then have "ev \<in> set (parseLogs ctfLogs) \<or> ev \<in> set (parseLogs negRiskLogs)"
      by (auto simp: events_def)
    then obtain entry where "entry \<in> set (ctfLogs @ negRiskLogs)" "blockNumber ev = logBlockNumber entry"
      using parseLogs_blocks by fastforce
    with assms(5) show "fromBlock \<le> blockNumber ev \<and> blockNumber ev \<le> toBlock" by auto
  qed
  moreover have "sorted (map blockNumber events)"
    by (simp add: events_def)
  moreover have "mset events = mset (parseLogs ctfLogs) + mset (parseLogs negRiskLogs)"
    by (simp add: events_def)
  ultimately show ?thesis using result by blast
qed

theorem getHistoricalTransfers_in_range_sorted_witness:
  "\<exists>events. getHistoricalTransfers exampleNode pushMonitor 100 110 = Inr events
      \<and> map blockNumber events = [101, 105, 108]
      \<and> sorted (map blockNumber events)"
proof -
  have a: "pushMonitor = runOperations bigNumberFromDecimal exampleConfig
             [OpConnect 0 (Some 100) WsReady] newMonitor"
    by (simp add: pushMonitor_def)
  have b: "isConnected pushMonitor"
    using pushMonitor_fields(6) by (simp add: isConnected_def)
  have c: "exampleNode CTF_EXCHANGE 100 110
      = Some [exampleLog ''0x01'' 108 1500, exampleLog ''0x03'' 101 500]"
    by (simp add: exampleNode_def exampleLog_def)
  have d: "exampleNode NEG_RISK_CTF_EXCHANGE 100 110 = Some [exampleLog ''0x04'' 105 3000]"
    by (simp add: exampleNode_def exampleLog_def CTF_EXCHANGE_def NEG_RISK_CTF_EXCHANGE_def)
  have e: "\<forall>entry \<in> set ([exampleLog ''0x01'' 108 1500, exampleLog ''0x03'' 101 500]
                            @ [exampleLog ''0x04'' 105 3000]).
             100 \<le> logBlockNumber entry \<and> logBlockNumber entry \<le> 110"
    by (simp add: exampleLog_def)
  obtain events where ev: "getHistoricalTransfers exampleNode pushMonitor 100 110 = Inr events"
      and s: "sorted (map blockNumber events)"
    using getHistoricalTransfers_in_range_sorted
      [of pushMonitor bigNumberFromDecimal exampleConfig "[OpConnect 0 (Some 100) WsReady]"
          exampleNode 100 110 "[exampleLog ''0x01'' 108 1500, exampleLog ''0x03'' 101 500]"
          "[exampleLog ''0x04'' 105 3000]", OF a b c d e]
    by blast
  have "getHistoricalTransfers exampleNode pushMonitor 100 110
       = Inr [exampleTransfer ''0x03'' 101 ''500'', exampleTransfer ''0x04'' 105 ''3000'',
              exampleTransfer ''0x01'' 108 ''1500'']"
    using pushMonitor_fields(5) c d
    by (simp add: getHistoricalTransfers_def parse_exampleLog exampleTransfer_def)
  with ev have "map blockNumber events = [101, 105, 108]"
    by (auto simp: exampleTransfer_def)
  with ev s show ?thesis by (intro exI [of _ events]) simp
qed

section \<open>The minimum-value filter\<close>

lemma decDigit_digitChar: "d < 10 \<Longrightarrow> decDigit (digitChar d) = Some d"
proof -
  assume "d < 10"
  then have "d = 0 \<or> d = 1 \<or> d = 2 \<or> d = 3 \<or> d = 4 \<or> d = 5 \<or> d = 6 \<or> d = 7 \<or> d = 8 \<or> d = 9"
    by arith
  then show ?thesis
    by (elim disjE) (simp_all add: decDigit_def digitChar_def)
qed

lemma parseDigits_snoc:
  "parseDigits acc (s @ [c]) =
     (case parseDigits acc s of
        None \<Rightarrow> None
      | Some a \<Rightarrow> (case decDigit c of None \<Rightarrow> None | Some d \<Rightarrow> Some (a * 10 + d)))"
  by (induction s arbitrary: acc) (simp_all split: option.splits)

lemma parseDigits_toStringNat: "parseDigits 0 (toStringNat n) = Some n"
proof (induction n rule: toStringNat.induct)
  case (1 n)
  show ?case
  proof (cases "n < 10")
    case True
    then show ?thesis
      by (simp add: toStringNat.simps [of n] decDigit_digitChar)
  next
    case False
    have "n mod 10 < 10" by simp
    with False "1.IH" show ?thesis
      by (simp add: toStringNat.simps [of n] parseDigits_snoc decDigit_digitChar)
  qed
qed

lemma bigNumberFromDecimal_toStringNat: "bigNumberFromDecimal (toStringNat n) = Some (int n)"
proof (cases "toStringNat n")
  case Nil
  with parseDigits_toStringNat [of n] show ?thesis
    by (cases "n < 10") (simp_all add: toStringNat.simps [of n])
next
  case (Cons c cs)
  with parseDigits_toStringNat [of n] have "decDigit c \<noteq> None"
    by (auto split: option.splits)
  then have "c \<noteq> CHR ''-''"
    by (auto simp: decDigit_def)
  with Cons parseDigits_toStringNat [of n] show ?thesis
    by (simp add: bigNumberFromDecimal_def)
qed

text \<open>
  Claim C5. With the threshold configured as \<open>"1000"\<close>, an event of amount \<open>"500"\<close>
  leaves the pipeline with no emission and the state unchanged, and one of amount
  \<open>"1500"\<close> is emitted. In general, when threshold and amount read as the integers
  \<open>threshold\<close> and \<open>a\<close>, the event is dropped exactly when \<open>0 < threshold\<close> and
  \<open>a < threshold\<close>, and emitted exactly otherwise; the comparison is the one of the
  integers. So it is for a push notification of the value \<open>val\<close>, whose amount is the
  decimal numeral of \<open>val\<close>.
\<close>

theorem minimum_transfer_value_filter:
  assumes "readsDecimals bn"
  shows "(rawMinTransferValue raw = Some ''1000'' \<longrightarrow>
            (amount ev = ''500'' \<longrightarrow> processEvent bn (makeConfig raw) now ev m = (m, [], None))
          \<and> (amount ev = ''1500'' \<longrightarrow>
               (\<exists>m'. processEvent bn (makeConfig raw) now ev m = (m', [EmitTransfer ev], None))))
       \<and> (bn (minTransferValue cfg) = Some threshold \<and> bn (amount ev) = Some a \<longrightarrow>
            (processEvent bn cfg now ev m = (m, [], None)) = (0 < threshold \<and> a < threshold)
          \<and> (\<exists>m'. processEvent bn cfg now ev m = (m', [EmitTransfer ev], None))
              = (\<not> (0 < threshold \<and> a < threshold)))
       \<and> (bn (minTransferValue cfg) = Some threshold \<longrightarrow>
            (handleTransferSingle bn cfg now oper src dst ident val hash blk m = (m, [], None))
              = (0 < threshold \<and> int val < threshold))"
proof -
  have bn: "bn ''1000'' = Some 1000" "bn ''500'' = Some 500" "bn ''1500'' = Some 1500"
    using assms parse_decimal_examples by (simp_all add: readsDecimals_def)
  have threshold: "rawMinTransferValue raw = Some ''1000'' \<Longrightarrow> minTransferValue (makeConfig raw) = ''1000''"
    by (simp add: makeConfig_def orElseString_def)
  have scenario: "rawMinTransferValue raw = Some ''1000'' \<longrightarrow>
            (amount ev = ''500'' \<longrightarrow> processEvent bn (makeConfig raw) now ev m = (m, [], None))
          \<and> (amount ev = ''1500'' \<longrightarrow>
               (\<exists>m'. processEvent bn (makeConfig raw) now ev m = (m', [EmitTransfer ev], None)))"
    using bn threshold by (simp add: processEvent_def Let_def)
  have general: "bn (minTransferValue cfg) = Some threshold \<and> bn (amount ev) = Some a \<longrightarrow>
            (processEvent bn cfg now ev m = (m, [], None)) = (0 < threshold \<and> a < threshold)
          \<and> (\<exists>m'. processEvent bn cfg now ev m = (m', [EmitTransfer ev], None))
              = (\<not> (0 < threshold \<and> a < threshold))"
    by (auto simp: processEvent_def Let_def)
  have "bn (toStringNat val) = Some (int val)"
    using assms bigNumberFromDecimal_toStringNat by (simp add: readsDecimals_def)
  then have push: "bn (minTransferValue cfg) = Some threshold \<longrightarrow>
            (handleTransferSingle bn cfg now oper src dst ident val hash blk m = (m, [], None))
              = (0 < threshold \<and> int val < threshold)"
    by (auto simp: handleTransferSingle_def processEvent_def Let_def)
  from scenario general push show ?thesis by blast
qed

theorem minimum_transfer_value_filter_witness:
  "processEvent bigNumberFromDecimal exampleConfig 5 (exampleEvent ''500'') pushMonitor
     = (pushMonitor, [], None)
   \<and> (\<exists>m'. processEvent bigNumberFromDecimal exampleConfig 5 (exampleEvent ''1500'') pushMonitor
        = (m', [EmitTransfer (exampleEvent ''1500'')], None))
   \<and> processEvent bigNumberFromDecimal
        (exampleConfig\<lparr> minTransferValue := ''9007199254740993'' \<rparr>) 5
        (exampleEvent ''9007199254740992'') pushMonitor
     = (pushMonitor, [], None)
   \<and> handleTransferSingle bigNumberFromDecimal exampleConfig 5 ''0xAA'' ''0xBb'' ''0xCC'' 7 500
        ''0x06'' 100 pushMonitor
     = (pushMonitor, [], None)"
proof -
  have r: "readsDecimals bigNumberFromDecimal" by (simp add: readsDecimals_def)
  have t: "bigNumberFromDecimal (minTransferValue (exampleConfig\<lparr> minTransferValue := ''9007199254740993'' \<rparr>))
             = Some 9007199254740993
           \<and> bigNumberFromDecimal (amount (exampleEvent ''9007199254740992'')) = Some 9007199254740992"
    by (simp add: bigNumberFromDecimal_def decDigit_def exampleEvent_def)
  have raw: "rawMinTransferValue
       \<lparr> rawInfuraApiKey = ''k'', rawInfuraNetwork = None, rawWsEnabled = None,
         rawPollingIntervalMs = None, rawMinTransferValue = Some ''1000'',
         rawAutoReconnect = None, rawReconnectDelayMs = None,
         rawMaxReconnectAttempts = Some 3 \<rparr> = Some ''1000''"
    by simp
  have a5: "amount (exampleEvent ''500'') = ''500''" and a15: "amount (exampleEvent ''1500'') = ''1500''"
    by (simp_all add: exampleEvent_def)
  show ?thesis
    using minimum_transfer_value_filter [OF r, of
        "\<lparr> rawInfuraApiKey = ''k'', rawInfuraNetwork = None, rawWsEnabled = None,
         rawPollingIntervalMs = None, rawMinTransferValue = Some ''1000'',
         rawAutoReconnect = None, rawReconnectDelayMs = None,
         rawMaxReconnectAttempts = Some 3 \<rparr>" "exampleEvent ''500''" 5 pushMonitor]
      minimum_transfer_value_filter [OF r, of
        "\<lparr> rawInfuraApiKey = ''k'', rawInfuraNetwork = None, rawWsEnabled = None,
         rawPollingIntervalMs = None, rawMinTransferValue = Some ''1000'',
         rawAutoReconnect = None, rawReconnectDelayMs = None,
         rawMaxReconnectAttempts = Some 3 \<rparr>" "exampleEvent ''1500''" 5 pushMonitor]
      minimum_transfer_value_filter [OF r, of _ "exampleEvent ''9007199254740992''" 5 pushMonitor
        "exampleConfig\<lparr> minTransferValue := ''9007199254740993'' \<rparr>"
        9007199254740993 9007199254740992]
      minimum_transfer_value_filter [OF r, of _ _ 5 pushMonitor exampleConfig 1000 _
        "''0xAA''" "''0xBb''" "''0xCC''" 7 500 "''0x06''" 100]
      raw a5 a15 t exampleConfig_fields(4) parse_decimal_examples(1)
    unfolding exampleConfig_def [symmetric]
    by simp
qed

section \<open>The pull-based stream\<close>

lemma serve_effect:
  assumes "\<not> resolveNext r" "resolved r = None"
  shows "readerInvariant (serve running r)
         \<and> started (serve running r) = started r
         \<and> (finished r \<longrightarrow> finished (serve running r))
         \<and> (\<not> finished (serve running r) \<longrightarrow>
               yielded (serve running r) @ eventQueue (serve running r) = yielded r @ eventQueue r
             \<and> length (yielded (serve running r)) + pending (serve running r)
                 = length (yielded r) + pending r)"
  using assms
proof (induction running r rule: serve.induct)
  case (1 running r)
  show ?case
  proof (cases "pending r = 0")
    case True
    then have "serve running r = r"
      by (subst serve.simps) simp
    with True "1.prems" show ?thesis
      by (simp add: readerInvariant_def)
  next
    case False
    note waiting = this
    show ?thesis
    proof (cases running)
      case False
      with waiting have "serve running r = r\<lparr> finished := True, pending := 0 \<rparr>"
        by (subst serve.simps) simp
      with "1.prems" show ?thesis
        by (simp add: readerInvariant_def)
    next
      case True
      show ?thesis
      proof (cases "eventQueue r")
        case Nil
        with waiting True have "serve running r = r\<lparr> resolveNext := True \<rparr>"
          by (subst serve.simps) simp
        with waiting Nil "1.prems" show ?thesis
          by (simp add: readerInvariant_def)
      next
        case (Cons ev rest)
        let ?r1 = "r\<lparr> eventQueue := rest, yielded := yielded r @ [ev], pending := pending r - 1 \<rparr>"
        have unfold: "serve running r = serve running ?r1"
          using waiting True Cons by (subst serve.simps) simp
        have ih: "readerInvariant (serve running ?r1)
           \<and> started (serve running ?r1) = started ?r1
           \<and> (finished ?r1 \<longrightarrow> finished (serve running ?r1))
           \<and> (\<not> finished (serve running ?r1) \<longrightarrow>
                 yielded (serve running ?r1) @ eventQueue (serve running ?r1)
                   = yielded ?r1 @ eventQueue ?r1
               \<and> length (yielded (serve running ?r1)) + pending (serve running ?r1)
                   = length (yielded ?r1) + pending ?r1)"
          using "1.IH" [OF waiting _ Cons] True "1.prems" by simp
        show ?thesis
          unfolding unfold using ih waiting Cons by auto
      qed
    qed
  qed
qed

lemma readerNext_effect:
  assumes "readerInvariant r"
  shows "readerInvariant (readerNext running r)
         \<and> (finished r \<longrightarrow> finished (readerNext running r))
         \<and> (\<not> finished (readerNext running r) \<longrightarrow>
               yielded (readerNext running r) @ eventQueue (readerNext running r)
                 = yielded r @ eventQueue r
             \<and> length (yielded (readerNext running r)) + pending (readerNext running r)
                 = length (yielded r) + pending r + 1
             \<and> (started r \<longrightarrow> started (readerNext running r)))"
proof (cases "finished r \<or> resolveNext r")
  case True
  with assms show ?thesis
    by (auto simp: readerNext_def readerInvariant_def)
next
  case False
  let ?r1 = "r\<lparr> started := True, pending := pending r + 1 \<rparr>"
  have run: "readerNext running r = serve running ?r1"
    using False by (simp add: readerNext_def)
  have "\<not> resolveNext ?r1" "resolved ?r1 = None"
    using False assms by (simp_all add: readerInvariant_def)
  from serve_effect [OF this, of running] False show ?thesis
    unfolding run by simp
qed

lemma deliver_pushes:
  "\<not> resolveNext r \<Longrightarrow> started r \<Longrightarrow> \<not> finished r
     \<Longrightarrow> foldl (\<lambda>r ev. deliver ev r) r evs = r\<lparr> eventQueue := eventQueue r @ evs \<rparr>"
  by (induction evs arbitrary: r) (simp_all add: deliver_def handler_def)

lemma deliver_finished:
  "finished r \<Longrightarrow> foldl (\<lambda>r ev. deliver ev r) r evs = r"
  by (induction evs arbitrary: r) (simp_all add: deliver_def)

lemma deliver_not_started:
  "\<not> started r \<Longrightarrow> foldl (\<lambda>r ev. deliver ev r) r evs = r"
  by (induction evs arbitrary: r) (simp_all add: deliver_def)

lemma deliveries_effect:
  assumes "readerInvariant r"
  shows "readerInvariant (resume running (foldl (\<lambda>r ev. deliver ev r) r evs))
         \<and> (finished r \<longrightarrow> finished (resume running (foldl (\<lambda>r ev. deliver ev r) r evs)))
         \<and> (started r \<and> \<not> finished (resume running (foldl (\<lambda>r ev. deliver ev r) r evs)) \<longrightarrow>
               yielded (resume running (foldl (\<lambda>r ev. deliver ev r) r evs))
                 @ eventQueue (resume running (foldl (\<lambda>r ev. deliver ev r) r evs))
                 = yielded r @ eventQueue r @ evs
             \<and> length (yielded (resume running (foldl (\<lambda>r ev. deliver ev r) r evs)))
                 + pending (resume running (foldl (\<lambda>r ev. deliver ev r) r evs))
                 = length (yielded r) + pending r
             \<and> started (resume running (foldl (\<lambda>r ev. deliver ev r) r evs)))"
proof (cases "finished r \<or> \<not> started r")
  case True
  then have "foldl (\<lambda>r ev. deliver ev r) r evs = r"
    using deliver_finished deliver_not_started by blast
  with assms True show ?thesis
    by (auto simp: resume_def readerInvariant_def)
next
  case False
  then have live: "started r" "\<not> finished r" by simp_all
  show ?thesis
  proof (cases "resolveNext r")
    case False
    with live have "foldl (\<lambda>r ev. deliver ev r) r evs = r\<lparr> eventQueue := eventQueue r @ evs \<rparr>"
      by (simp add: deliver_pushes)
    with assms False live show ?thesis
      by (simp add: resume_def readerInvariant_def)
  next
    case True
    note waiting = this
    with assms have queue: "eventQueue r = []" "0 < pending r" "resolved r = None"
      by (simp_all add: readerInvariant_def)
    show ?thesis
    proof (cases evs)
      case Nil
      with assms live show ?thesis
        by (simp add: resume_def readerInvariant_def)
    next
      case (Cons ev rest)
      let ?r1 = "r\<lparr> resolved := Some ev, resolveNext := False \<rparr>"
      let ?r2 = "r\<lparr> resolved := None, resolveNext := False, eventQueue := rest,
                     yielded := yielded r @ [ev], pending := pending r - 1 \<rparr>"
      have "deliver ev r = ?r1"
        using live waiting by (simp add: deliver_def handler_def)
      moreover have "foldl (\<lambda>r ev. deliver ev r) ?r1 rest = ?r1\<lparr> eventQueue := eventQueue ?r1 @ rest \<rparr>"
        using live by (intro deliver_pushes) simp_all
      ultimately have after: "foldl (\<lambda>r ev. deliver ev r) r evs = ?r1\<lparr> eventQueue := rest \<rparr>"
        using Cons queue by simp
      have woken: "resume running (foldl (\<lambda>r ev. deliver ev r) r evs) = serve running ?r2"
        unfolding after by (cases r) (simp add: resume_def)
      have "\<not> resolveNext ?r2" "resolved ?r2 = None" by simp_all
      from serve_effect [OF this, of running] live queue Cons show ?thesis
        unfolding woken by auto
    qed
  qed
qed

lemma deliverAll_length: "length (deliverAll evs rs) = length rs"
  by (induction evs arbitrary: rs) simp_all

lemma deliverAll_nth:
  "i < length rs \<Longrightarrow> deliverAll evs rs ! i = foldl (\<lambda>r ev. deliver ev r) (rs ! i) evs"
  by (induction evs arbitrary: rs) simp_all

lemma systemStep_length: "length (readers s) \<le> length (readers (systemStep bn cfg a s))"
  by (cases a) (auto simp: deliverAll_length split: prod.splits)

lemma systemStep_invariant:
  assumes "\<forall>r \<in> set (readers s). readerInvariant r"
  shows "\<forall>r \<in> set (readers (systemStep bn cfg a s)). readerInvariant r"
proof (cases a)
  case Subscribe
  with assms show ?thesis by (simp add: newReader_def readerInvariant_def)
next
  case (Next i)
  show ?thesis
  proof (cases "i < length (readers s)")
    case True
    have "readerInvariant (readerNext (isRunning (monitorOf s)) (readers s ! i))"
      using assms True readerNext_effect by simp
    with assms Next True show ?thesis
      by (auto dest!: set_update_subset_insert [THEN subsetD])
  next
    case False
    with assms Next show ?thesis by simp
  qed
next
  case (Perform op)
  obtain m1 out where p: "perform bn cfg op (monitorOf s) = (m1, out)"
    by (cases "perform bn cfg op (monitorOf s)")
  have "readerInvariant r'"
    if "r' \<in> set (map (resume (isRunning m1)) (deliverAll (transfersOf out) (readers s)))" for r'
  proof -
    from that obtain k where k: "k < length (readers s)"
        "r' = resume (isRunning m1) (deliverAll (transfersOf out) (readers s) ! k)"
      by (auto simp: in_set_conv_nth deliverAll_length)
    have "readerInvariant (readers s ! k)" using assms k(1) by simp
    from deliveries_effect [OF this, of "isRunning m1" "transfersOf out"] k show ?thesis
      by (simp add: deliverAll_nth)
  qed
  with Perform p show ?thesis by simp
qed

lemma runSystem_length: "length (readers s) \<le> length (readers (runSystem bn cfg acts s))"
proof (induction acts arbitrary: s)
  case Nil
  show ?case by simp
next
  case (Cons a acts)
  from Cons.IH [of "systemStep bn cfg a s"] systemStep_length [of s bn cfg a]
  show ?case by simp
qed

lemma runSystem_invariant:
  "\<forall>r \<in> set (readers s). readerInvariant r
     \<Longrightarrow> \<forall>r \<in> set (readers (runSystem bn cfg acts s)). readerInvariant r"
proof (induction acts arbitrary: s)
  case Nil
  then show ?case by simp
next
  case (Cons a acts)
  from Cons.IH [OF systemStep_invariant [OF Cons.prems]] show ?case by simp
qed

lemma systemStep_effect:
  assumes "\<forall>r \<in> set (readers s). readerInvariant r" and "i < length (readers s)"
  shows "(finished (readers s ! i) \<longrightarrow> finished (readers (systemStep bn cfg a s) ! i))
         \<and> (started (readers s ! i) \<and> \<not> finished (readers (systemStep bn cfg a s) ! i) \<longrightarrow>
               yielded (readers (systemStep bn cfg a s) ! i)
                 @ eventQueue (readers (systemStep bn cfg a s) ! i)
                 = yielded (readers s ! i) @ eventQueue (readers s ! i) @ stepTransfers bn cfg a s
             \<and> length (yielded (readers (systemStep bn cfg a s) ! i))
                 + pending (readers (systemStep bn cfg a s) ! i)
                 = length (yielded (readers s ! i)) + pending (readers s ! i) + requestsOf i [a]
             \<and> started (readers (systemStep bn cfg a s) ! i))"
proof -
  have inv: "readerInvariant (readers s ! i)" using assms by simp
  show ?thesis
  proof (cases a)
    case Subscribe
    with assms(2) show ?thesis by (simp add: nth_append)
  next
    case (Next j)
    show ?thesis
    proof (cases "j = i")
      case True
      with assms(2) Next readerNext_effect [OF inv, of "isRunning (monitorOf s)"]
      show ?thesis by simp
    next
      case False
      with assms(2) Next show ?thesis by simp
    qed
  next
    case (Perform op)
    obtain m1 out where p: "perform bn cfg op (monitorOf s) = (m1, out)"
      by (cases "perform bn cfg op (monitorOf s)")
    have after: "readers (systemStep bn cfg a s) ! i
        = resume (isRunning m1) (foldl (\<lambda>r ev. deliver ev r) (readers s ! i) (transfersOf out))"
      using Perform p assms(2) by (simp add: deliverAll_nth deliverAll_length)
    from deliveries_effect [OF inv, of "isRunning m1" "transfersOf out"] Perform p
    show ?thesis unfolding after by simp
  qed
qed

lemma runSystem_finished:
  "\<forall>r \<in> set (readers s). readerInvariant r \<Longrightarrow> i < length (readers s)
     \<Longrightarrow> finished (readers s ! i)
     \<Longrightarrow> finished (readers (runSystem bn cfg acts s) ! i)"
proof (induction acts arbitrary: s)
  case Nil
  then show ?case by simp
next
  case (Cons a acts)
  have "i < length (readers (systemStep bn cfg a s))"
    using Cons.prems(2) systemStep_length [of s bn cfg a] by simp
  moreover have "finished (readers (systemStep bn cfg a s) ! i)"
    using systemStep_effect [OF Cons.prems(1,2), of bn cfg a] Cons.prems(3) by simp
  ultimately show ?case
    using Cons.IH [OF systemStep_invariant [OF Cons.prems(1)]] by simp
qed

lemma requestsOf_Cons: "requestsOf i (a # acts) = requestsOf i [a] + requestsOf i acts"
  by (cases a) simp_all

lemma runSystem_effect:
  assumes "\<forall>r \<in> set (readers s). readerInvariant r" and "i < length (readers s)"
    and "started (readers s ! i)"
    and "\<not> finished (readers (runSystem bn cfg acts s) ! i)"
  shows "yielded (readers (runSystem bn cfg acts s) ! i)
           @ eventQueue (readers (runSystem bn cfg acts s) ! i)
           = streamEvents bn cfg i s acts
         \<and> length (yielded (readers (runSystem bn cfg acts s) ! i))
            + pending (readers (runSystem bn cfg acts s) ! i)
           = streamRequests i s acts"
  using assms
proof (induction acts arbitrary: s)
  case Nil
  then show ?case by (simp add: streamEvents_def streamRequests_def)
next
  case (Cons a acts)
  let ?s1 = "systemStep bn cfg a s"
  have inv1: "\<forall>r \<in> set (readers ?s1). readerInvariant r"
    using Cons.prems(1) by (rule systemStep_invariant)
  have len: "i < length (readers ?s1)"
    using Cons.prems(2) systemStep_length [of s bn cfg a] by simp
  have alive: "\<not> finished (readers ?s1 ! i)"
    using Cons.prems(4) runSystem_finished [OF inv1 len, of bn cfg acts] by auto
  have step: "yielded (readers ?s1 ! i) @ eventQueue (readers ?s1 ! i)
                 = yielded (readers s ! i) @ eventQueue (readers s ! i) @ stepTransfers bn cfg a s"
      "length (yielded (readers ?s1 ! i)) + pending (readers ?s1 ! i)
                 = length (yielded (readers s ! i)) + pending (readers s ! i) + requestsOf i [a]"
      "started (readers ?s1 ! i)"
    using systemStep_effect [OF Cons.prems(1,2), of bn cfg a] Cons.prems(3) alive by simp_all
  have rest: "yielded (readers (runSystem bn cfg acts ?s1) ! i)
           @ eventQueue (readers (runSystem bn cfg acts ?s1) ! i)
           = streamEvents bn cfg i ?s1 acts"
      "length (yielded (readers (runSystem bn cfg acts ?s1) ! i))
            + pending (readers (runSystem bn cfg acts ?s1) ! i)
           = streamRequests i ?s1 acts"
    using Cons.IH [OF inv1 len step(3)] Cons.prems(4) by simp_all
  show ?case
    using rest step(1,2) requestsOf_Cons [of i a acts]
    by (simp add: streamEvents_def streamRequests_def)
qed

text \<open>
  Claim C1 as stated fails: with two consumers waiting, each on its own call of
  \<open>subscribeAllTransfers\<close>, one event that passes the pipeline is handed to both of
  them.
\<close>

theorem two_readers_both_receive_counterexample:
  "map yielded
     (readers (runSystem bigNumberFromDecimal exampleConfig
                 [Perform (OpEvent 5 (exampleEvent ''1500''))] twoWaitingReaders))
   = [[exampleEvent ''1500''], [exampleEvent ''1500'']]"
  by (simp add: twoWaitingReaders_state exampleEvent_pipeline deliver_def handler_def newReader_def
        resume_def serve.simps pushMonitor_fields)

text \<open>
  Claim C1, amended. Every call of \<open>subscribeAllTransfers\<close> is a stream with a queue of
  its own, and the events are not split between streams. For any interleaving of
  subscriptions, requests and monitor operations, and for as long as a started stream
  has not finished: its \<open>k\<close>-th request is answered with the \<open>k\<close>-th \<open>transfer\<close> event
  emitted since it started. With \<open>n\<close> requests made and the events \<open>es\<close> emitted, the
  events handed out are the first \<open>n\<close> of \<open>es\<close>, in order and each once, the rest of
  \<open>es\<close> waits in the queue, and \<open>n - length es\<close> requests are still waiting.
\<close>

theorem stream_answers_requests_with_transfers_in_order:
  assumes "s = runSystem bn cfg earlier \<lparr> monitorOf = m0, readers = [] \<rparr>"
    and "i < length (readers s)" and "started (readers s ! i)"
    and "\<not> finished (readers (runSystem bn cfg acts s) ! i)"
  shows "yielded (readers (runSystem bn cfg acts s) ! i)
           = take (streamRequests i s acts) (streamEvents bn cfg i s acts)
         \<and> eventQueue (readers (runSystem bn cfg acts s) ! i)
           = drop (streamRequests i s acts) (streamEvents bn cfg i s acts)
         \<and> pending (readers (runSystem bn cfg acts s) ! i)
           = streamRequests i s acts - length (streamEvents bn cfg i s acts)"
proof -
  let ?r = "readers (runSystem bn cfg acts s) ! i"
  have inv: "\<forall>r \<in> set (readers s). readerInvariant r"
    using assms(1) runSystem_invariant [of "\<lparr> monitorOf = m0, readers = [] \<rparr>" bn cfg earlier]
    by simp
  have "i < length (readers (runSystem bn cfg acts s))"
    using assms(2) runSystem_length [of s bn cfg acts] by simp
  then have final: "readerInvariant ?r"
    using runSystem_invariant [OF inv, of bn cfg acts] by simp
  have total: "yielded ?r @ eventQueue ?r = streamEvents bn cfg i s acts"
      and count: "length (yielded ?r) + pending ?r = streamRequests i s acts"
    using runSystem_effect [OF inv assms(2,3,4)] by simp_all
  show ?thesis
  proof (cases "resolveNext ?r")
    case True
    with final have "eventQueue ?r = []" by (simp add: readerInvariant_def)
    with total count show ?thesis by auto
  next
    case False
    with final have "pending ?r = 0" by (simp add: readerInvariant_def)
    with total [symmetric] count [symmetric] show ?thesis by simp
  qed
qed

lemma exampleRun_state:
  "readers (runSystem bigNumberFromDecimal exampleConfig
              [Perform (OpEvent 5 (exampleEvent ''1500'')),
               Perform (OpEvent 6 (exampleEvent ''500'')),
               Perform (OpEvent 7 (exampleEvent ''3000'')),
               Perform (OpEvent 8 (exampleEvent ''1500'')), Next 1] twoWaitingReaders)
   = [newReader\<lparr> started := True,
                  eventQueue := [exampleEvent ''3000'', exampleEvent ''1500''],
                  yielded := [exampleEvent ''1500''] \<rparr>,
      newReader\<lparr> started := True,
                  eventQueue := [exampleEvent ''1500''],
                  yielded := [exampleEvent ''1500'', exampleEvent ''3000''] \<rparr>]"
  by (simp add: twoWaitingReaders_state exampleEvent_pipeline deliver_def handler_def newReader_def
        resume_def readerNext_def serve.simps pushMonitor_fields)

theorem stream_answers_requests_with_transfers_in_order_witness:
  "yielded (readers (runSystem bigNumberFromDecimal exampleConfig
              [Perform (OpEvent 5 (exampleEvent ''1500'')),
               Perform (OpEvent 6 (exampleEvent ''500'')),
               Perform (OpEvent 7 (exampleEvent ''3000'')),
               Perform (OpEvent 8 (exampleEvent ''1500'')), Next 1] twoWaitingReaders) ! 1)
     = [exampleEvent ''1500'', exampleEvent ''3000'']
   \<and> eventQueue (readers (runSystem bigNumberFromDecimal exampleConfig
              [Perform (OpEvent 5 (exampleEvent ''1500'')),
               Perform (OpEvent 6 (exampleEvent ''500'')),
               Perform (OpEvent 7 (exampleEvent ''3000'')),
               Perform (OpEvent 8 (exampleEvent ''1500'')), Next 1] twoWaitingReaders) ! 1)
     = [exampleEvent ''1500'']
   \<and> pending (readers (runSystem bigNumberFromDecimal exampleConfig
              [Perform (OpEvent 5 (exampleEvent ''1500'')),
               Perform (OpEvent 6 (exampleEvent ''500'')),
               Perform (OpEvent 7 (exampleEvent ''3000'')),
               Perform (OpEvent 8 (exampleEvent ''1500'')), Next 1] twoWaitingReaders) ! 1)
     = 0"
proof -
  let ?acts = "[Perform (OpEvent 5 (exampleEvent ''1500'')),
               Perform (OpEvent 6 (exampleEvent ''500'')),
               Perform (OpEvent 7 (exampleEvent ''3000'')),
               Perform (OpEvent 8 (exampleEvent ''1500'')), Next 1]"
  have a: "twoWaitingReaders =
      runSystem bigNumberFromDecimal exampleConfig [Subscribe, Subscribe, Next 0, Next 1]
        \<lparr> monitorOf = pushMonitor, readers = [] \<rparr>"
    by (simp add: twoWaitingReaders_def)
  have b: "1 < length (readers twoWaitingReaders)"
    by (simp add: twoWaitingReaders_state)
  have c: "started (readers twoWaitingReaders ! 1)"
    by (simp add: twoWaitingReaders_state)
  have d: "\<not> finished (readers (runSystem bigNumberFromDecimal exampleConfig ?acts
                                  twoWaitingReaders) ! 1)"
    by (simp only: exampleRun_state) (simp add: newReader_def)
  have e: "streamEvents bigNumberFromDecimal exampleConfig 1 twoWaitingReaders ?acts
           = [exampleEvent ''1500'', exampleEvent ''3000'', exampleEvent ''1500'']"
    by (simp add: streamEvents_def exampleEvent_pipeline twoWaitingReaders_state newReader_def)
  have f: "streamRequests 1 twoWaitingReaders ?acts = 2"
    by (simp add: streamRequests_def twoWaitingReaders_state newReader_def)
  show ?thesis
    using stream_answers_requests_with_transfers_in_order [OF a b c d] e f by simp
qed

section \<open>The realtime service\<close>

lemma dispatch_other_asset:
  "feedAssetId ev = Some c \<Longrightarrow> c \<notin> set (listenerAssetIds l) \<Longrightarrow> dispatch ev l = (l, [])"
  by (cases ev) auto

lemma emitToListeners_calls:
  "(n, call) \<in> set (snd (emitToListeners ev ls))
     = (\<exists>l \<in> set ls. listenerId l = n \<and> call \<in> set (snd (dispatch ev l)))"
proof (induction ls)
  case Nil
  show ?case by simp
next
  case (Cons l ls)
  then show ?case
    by (cases "dispatch ev l"; cases "emitToListeners ev ls") auto
qed

lemma dispatch_call_asset:
  "call \<in> set (snd (dispatch ev l)) \<Longrightarrow> feedAssetId ev = Some c \<Longrightarrow> c \<in> set (listenerAssetIds l)"
  using dispatch_other_asset [of ev c l] by (cases "c \<in> set (listenerAssetIds l)") auto

lemma exampleService_listeners:
  "listeners exampleService =
     [\<lparr> listenerId = 1, listenerAssetIds = [''a'', ''b''], callbacks = allHandlers,
        pairTokens = None, lastYesUpdate = None, lastNoUpdate = None \<rparr>,
      \<lparr> listenerId = 2, listenerAssetIds = [''y'', ''n''], callbacks = allHandlers,
        pairTokens = Some (''y'', ''n''), lastYesUpdate = None, lastNoUpdate = None \<rparr>]"
  by (simp add: exampleService_def subscribeMarket_def subscribeMarkets_def attach_def Let_def
        newRealtimeService_def)

text \<open>
  Claim C7. A price, book or trade event for an asset id outside a subscription's
  asset ids calls none of its callbacks and leaves it as it is; every callback call an
  event with an asset id causes belongs to a subscription whose asset ids include that
  id; an error event calls the \<open>onError\<close> of every attached subscription that supplied
  one, whatever its asset ids; and the subscription \<open>subscribeMarkets\<close> attaches is
  over the asset ids it was given.
\<close>

theorem subscription_filters_by_asset_and_broadcasts_errors:
  "(feedAssetId ev = Some c \<and> c \<notin> set (listenerAssetIds l) \<longrightarrow> dispatch ev l = (l, []))
   \<and> (feedAssetId ev = Some c \<and> (n, call) \<in> set (snd (emitFeedEvent ev svc)) \<longrightarrow>
         (\<exists>k \<in> set (listeners svc). listenerId k = n \<and> c \<in> set (listenerAssetIds k)))
   \<and> (l \<in> set (listeners svc) \<and> onError (callbacks l) \<longrightarrow>
         (listenerId l, ErrorCall e) \<in> set (snd (emitFeedEvent (ErrorEvent e) svc)))
   \<and> listenerAssetIds (last (listeners (fst (subscribeMarkets assetIds h accepted svc)))) = assetIds"
proof (intro conjI)
  show "feedAssetId ev = Some c \<and> c \<notin> set (listenerAssetIds l) \<longrightarrow> dispatch ev l = (l, [])"
    by (simp add: dispatch_other_asset)
next
  have calls: "snd (emitFeedEvent ev' svc) = snd (emitToListeners ev' (listeners svc))" for ev'
    by (simp add: emitFeedEvent_def split: prod.splits)
  show "feedAssetId ev = Some c \<and> (n, call) \<in> set (snd (emitFeedEvent ev svc)) \<longrightarrow>
         (\<exists>k \<in> set (listeners svc). listenerId k = n \<and> c \<in> set (listenerAssetIds k))"
    unfolding calls emitToListeners_calls using dispatch_call_asset by blast
  show "l \<in> set (listeners svc) \<and> onError (callbacks l) \<longrightarrow>
         (listenerId l, ErrorCall e) \<in> set (snd (emitFeedEvent (ErrorEvent e) svc))"
    unfolding calls emitToListeners_calls by auto
next
  show "listenerAssetIds (last (listeners (fst (subscribeMarkets assetIds h accepted svc)))) = assetIds"
    by (simp add: subscribeMarkets_def attach_def Let_def)
qed

theorem subscription_filters_by_asset_and_broadcasts_errors_witness:
  "dispatch (PriceUpdateEvent (examplePrice ''y'' (3 / 5))) (hd (listeners exampleService))
     = (hd (listeners exampleService), [])
   \<and> (1, ErrorCall ''boom'') \<in> set (snd (emitFeedEvent (ErrorEvent ''boom'') exampleService))
   \<and> (2, ErrorCall ''boom'') \<in> set (snd (emitFeedEvent (ErrorEvent ''boom'') exampleService))
   \<and> snd (emitFeedEvent (PriceUpdateEvent (examplePrice ''a'' (3 / 5))) exampleService)
       = [(1, PriceUpdateCall (examplePrice ''a'' (3 / 5)))]"
proof -
  have a: "feedAssetId (PriceUpdateEvent (examplePrice ''y'' (3 / 5))) = Some ''y''
      \<and> ''y'' \<notin> set (listenerAssetIds (hd (listeners exampleService)))"
    by (simp add: exampleService_listeners examplePrice_def)
  have b: "hd (listeners exampleService) \<in> set (listeners exampleService)
      \<and> onError (callbacks (hd (listeners exampleService)))"
    by (simp add: exampleService_listeners allHandlers_def)
  have c: "last (listeners exampleService) \<in> set (listeners exampleService)
      \<and> onError (callbacks (last (listeners exampleService)))"
    by (simp add: exampleService_listeners allHandlers_def)
  have d: "listenerId (hd (listeners exampleService)) = 1"
      "listenerId (last (listeners exampleService)) = 2"
    by (simp_all add: exampleService_listeners)
  have e: "snd (emitFeedEvent (PriceUpdateEvent (examplePrice ''a'' (3 / 5))) exampleService)
       = [(1, PriceUpdateCall (examplePrice ''a'' (3 / 5)))]"
    by (simp add: emitFeedEvent_def exampleService_listeners examplePrice_def priceCallback_def
          allHandlers_def)
  show ?thesis
    using subscription_filters_by_asset_and_broadcasts_errors
        [of "PriceUpdateEvent (examplePrice ''y'' (3 / 5))" "''y''" "hd (listeners exampleService)"
            0 "ErrorCall ''boom''" exampleService "''boom''" "[]" allHandlers True]
      subscription_filters_by_asset_and_broadcasts_errors
        [of "PriceUpdateEvent (examplePrice ''y'' (3 / 5))" "''y''" "last (listeners exampleService)"
            0 "ErrorCall ''boom''" exampleService "''boom''" "[]" allHandlers True]
      a b c d e
    by simp
qed

lemma latestFor_filter:
  "latestFor a us =
     (if filter (\<lambda>u. priceAssetId u = a) us = [] then None
      else Some (last (filter (\<lambda>u. priceAssetId u = a) us)))"
  by (simp add: latestFor_def split: list.splits)

lemma latestFor_append:
  "latestFor a (us @ vs) =
     (case latestFor a vs of
        Some v \<Rightarrow> Some v
      | None \<Rightarrow> latestFor a us)"
  by (simp add: latestFor_filter)

lemma priceUpdates_Cons: "priceUpdates (ev # evs) = priceUpdates [ev] @ priceUpdates evs"
  by (cases ev) simp_all

lemma dispatch_static:
  "pairTokens (fst (dispatch ev l)) = pairTokens l
   \<and> listenerAssetIds (fst (dispatch ev l)) = listenerAssetIds l
   \<and> callbacks (fst (dispatch ev l)) = callbacks l"
  by (cases ev) (auto simp: priceCallback_def Let_def split: option.splits)

lemma dispatch_last_updates:
  assumes "pairTokens l = Some (yesTokenId, noTokenId)"
    and "yesTokenId \<in> set (listenerAssetIds l)" and "noTokenId \<in> set (listenerAssetIds l)"
  shows "lastYesUpdate (fst (dispatch ev l)) =
           (case latestFor yesTokenId (priceUpdates [ev]) of
              None \<Rightarrow> lastYesUpdate l
            | Some u \<Rightarrow> Some u)
         \<and> lastNoUpdate (fst (dispatch ev l)) =
           (if yesTokenId = noTokenId then lastNoUpdate l
            else case latestFor noTokenId (priceUpdates [ev]) of
                   None \<Rightarrow> lastNoUpdate l
                 | Some u \<Rightarrow> Some u)"
  using assms
  by (cases ev) (auto simp: priceCallback_def Let_def latestFor_def)

lemma feedListener_last_updates:
  assumes "pairTokens l = Some (yesTokenId, noTokenId)"
    and "yesTokenId \<in> set (listenerAssetIds l)" and "noTokenId \<in> set (listenerAssetIds l)"
  shows "lastYesUpdate (fst (feedListener evs l)) =
           (case latestFor yesTokenId (priceUpdates evs) of
              None \<Rightarrow> lastYesUpdate l
            | Some u \<Rightarrow> Some u)
         \<and> lastNoUpdate (fst (feedListener evs l)) =
           (if yesTokenId = noTokenId then lastNoUpdate l
            else case latestFor noTokenId (priceUpdates evs) of
                   None \<Rightarrow> lastNoUpdate l
                 | Some u \<Rightarrow> Some u)"
  using assms
proof (induction evs arbitrary: l)
  case Nil
  then show ?case by (simp add: latestFor_def)
next
  case (Cons ev evs)
  let ?l1 = "fst (dispatch ev l)"
  have static: "pairTokens ?l1 = Some (yesTokenId, noTokenId)"
      "yesTokenId \<in> set (listenerAssetIds ?l1)" "noTokenId \<in> set (listenerAssetIds ?l1)"
    using Cons.prems dispatch_static [of ev l] by simp_all
  have run: "fst (feedListener (ev # evs) l) = fst (feedListener evs ?l1)"
    by (simp split: prod.splits)
  have one: "lastYesUpdate ?l1 =
           (case latestFor yesTokenId (priceUpdates [ev]) of
              None \<Rightarrow> lastYesUpdate l
            | Some u \<Rightarrow> Some u)"
      "lastNoUpdate ?l1 =
           (if yesTokenId = noTokenId then lastNoUpdate l
            else case latestFor noTokenId (priceUpdates [ev]) of
                   None \<Rightarrow> lastNoUpdate l
                 | Some u \<Rightarrow> Some u)"
    using dispatch_last_updates [OF Cons.prems, of ev] by simp_all
  have yes: "lastYesUpdate (fst (feedListener evs ?l1)) =
           (case latestFor yesTokenId (priceUpdates [ev] @ priceUpdates evs) of
              None \<Rightarrow> lastYesUpdate l
            | Some u \<Rightarrow> Some u)"
    using Cons.IH [OF static] one(1)
    by (cases "latestFor yesTokenId (priceUpdates evs)") (simp_all add: latestFor_append)
  have no: "lastNoUpdate (fst (feedListener evs ?l1)) =
           (if yesTokenId = noTokenId then lastNoUpdate l
            else case latestFor noTokenId (priceUpdates [ev] @ priceUpdates evs) of
                   None \<Rightarrow> lastNoUpdate l
                 | Some u \<Rightarrow> Some u)"
    using Cons.IH [OF static] one(2)
    by (cases "latestFor noTokenId (priceUpdates evs)") (simp_all add: latestFor_append)
  show ?case
    unfolding run priceUpdates_Cons [of ev evs] using yes no by simp
qed

lemma feedListener_append:
  "feedListener (evs @ [ev]) l =
     (case feedListener evs l of
        (l1, calls) \<Rightarrow> (case dispatch ev l1 of (l2, later) \<Rightarrow> (l2, calls @ later)))"
  by (induction evs arbitrary: l) (auto split: prod.splits)

lemma dispatch_pair_call:
  assumes "PairUpdateCall p \<in> set (snd (dispatch ev l))"
  shows "lastYesUpdate (fst (dispatch ev l)) = Some (pairYes p)
         \<and> lastNoUpdate (fst (dispatch ev l)) = Some (pairNo p)
         \<and> spread p = price (pairYes p) + price (pairNo p)"
  using assms
  by (cases ev)
     (auto simp: priceCallback_def checkPairUpdate_def Let_def
           split: option.splits if_splits prod.splits)

text \<open>
  Claim C8. For the subscription \<open>subscribeMarket\<close> attaches over a YES and a NO
  token: whenever an event, after any earlier events, makes it call \<open>onPairUpdate\<close>, the
  YES token and the NO token have each had a price update by then, the pair handed over
  holds the latest update of each, and its spread is the sum of their two prices.
\<close>

theorem pair_update_after_both_sides_with_sum_of_latest:
  assumes "l0 = last (listeners (fst (subscribeMarket yesTokenId noTokenId h accepted svc)))"
    and "feedListener evs l0 = (l1, earlier)"
    and "PairUpdateCall p \<in> set (snd (dispatch ev l1))"
  shows "(\<exists>u \<in> set (priceUpdates (evs @ [ev])). priceAssetId u = yesTokenId)
         \<and> (\<exists>u \<in> set (priceUpdates (evs @ [ev])). priceAssetId u = noTokenId)
         \<and> latestFor yesTokenId (priceUpdates (evs @ [ev])) = Some (pairYes p)
         \<and> latestFor noTokenId (priceUpdates (evs @ [ev])) = Some (pairNo p)
         \<and> spread p = price (pairYes p) + price (pairNo p)"
proof -
  have l0: "pairTokens l0 = Some (yesTokenId, noTokenId)"
      "yesTokenId \<in> set (listenerAssetIds l0)" "noTokenId \<in> set (listenerAssetIds l0)"
      "lastYesUpdate l0 = None" "lastNoUpdate l0 = None"
    using assms(1) by (simp_all add: subscribeMarket_def attach_def Let_def)
  have final: "fst (feedListener (evs @ [ev]) l0) = fst (dispatch ev l1)"
    using assms(2) by (simp add: feedListener_append split: prod.splits)
  have stored: "lastYesUpdate (fst (dispatch ev l1)) = Some (pairYes p)"
      "lastNoUpdate (fst (dispatch ev l1)) = Some (pairNo p)"
      and sum: "spread p = price (pairYes p) + price (pairNo p)"
    using dispatch_pair_call [OF assms(3)] by simp_all
  from feedListener_last_updates [OF l0(1,2,3), of "evs @ [ev]"] stored
  have latest: "latestFor yesTokenId (priceUpdates (evs @ [ev])) = Some (pairYes p)"
      "latestFor noTokenId (priceUpdates (evs @ [ev])) = Some (pairNo p)"
    unfolding final using l0(4,5)
    by (auto split: option.splits if_splits)
  have "\<exists>u \<in> set us. priceAssetId u = a" if "latestFor a us = Some v" for a v
      and us :: "'a priceUpdate list"
  proof -
    from that have "filter (\<lambda>u. priceAssetId u = a) us \<noteq> []"
      by (auto simp: latestFor_filter split: if_splits)
    then show ?thesis by (auto simp: filter_empty_conv)
  qed
  with latest sum show ?thesis by blast
qed

theorem pair_update_after_both_sides_with_sum_of_latest_witness:
  "snd (feedListener
          [PriceUpdateEvent (examplePrice ''y'' (3 / 5)), PriceUpdateEvent (examplePrice ''a'' 1)]
          (last (listeners exampleService)))
     = [PriceUpdateCall (examplePrice ''y'' (3 / 5))]
   \<and> latestFor ''y''
        (priceUpdates ([PriceUpdateEvent (examplePrice ''y'' (3 / 5)),
                        PriceUpdateEvent (examplePrice ''a'' 1)]
                       @ [PriceUpdateEvent (examplePrice ''n'' (9 / 20))]))
       = Some (examplePrice ''y'' (3 / 5))
   \<and> latestFor ''n''
        (priceUpdates ([PriceUpdateEvent (examplePrice ''y'' (3 / 5)),
                        PriceUpdateEvent (examplePrice ''a'' 1)]
                       @ [PriceUpdateEvent (examplePrice ''n'' (9 / 20))]))
       = Some (examplePrice ''n'' (9 / 20))
   \<and> spread \<lparr> pairYes = examplePrice ''y'' (3 / 5), pairNo = examplePrice ''n'' (9 / 20),
               spread = 21 / 20 \<rparr>
       = price (examplePrice ''y'' (3 / 5)) + price (examplePrice ''n'' (9 / 20))"
proof -
  let ?l0 = "last (listeners exampleService)"
  let ?l1 = "?l0\<lparr> lastYesUpdate := Some (examplePrice ''y'' (3 / 5)) \<rparr>"
  let ?p = "\<lparr> pairYes = examplePrice ''y'' (3 / 5), pairNo = examplePrice ''n'' (9 / 20),
              spread = (21 / 20 :: rat) \<rparr>"
  have a: "?l0 = last (listeners (fst (subscribeMarket ''y'' ''n'' allHandlers True
              (fst (subscribeMarkets [''a'', ''b''] allHandlers True
                      (newRealtimeService :: rat realtimeService))))))"
    by (simp add: exampleService_def)
  have b: "feedListener
          [PriceUpdateEvent (examplePrice ''y'' (3 / 5)), PriceUpdateEvent (examplePrice ''a'' 1)] ?l0
      = (?l1, [PriceUpdateCall (examplePrice ''y'' (3 / 5))])"
    by (simp add: exampleService_listeners examplePrice_def priceCallback_def checkPairUpdate_def
          allHandlers_def)
  have c: "PairUpdateCall ?p \<in> set (snd (dispatch (PriceUpdateEvent (examplePrice ''n'' (9 / 20))) ?l1))"
    by (simp add: exampleService_listeners examplePrice_def priceCallback_def checkPairUpdate_def
          allHandlers_def)
  show ?thesis
    using pair_update_after_both_sides_with_sum_of_latest [OF a b c] b by simp
qed

section \<open>The rounding of the host\<close>

lemma roundHalfEven_of_int: "roundHalfEven (of_int k) = k"
  by (simp add: roundHalfEven_def)

lemma roundHalfEven_lower: "\<lfloor>x\<rfloor> \<le> roundHalfEven x"
  by (simp add: roundHalfEven_def Let_def)

lemma roundHalfEven_upper: "roundHalfEven x \<le> \<lfloor>x\<rfloor> + 1"
  by (simp add: roundHalfEven_def Let_def)

lemma roundHalfEven_mono:
  assumes "x \<le> y"
  shows "roundHalfEven x \<le> roundHalfEven y"
proof (cases "\<lfloor>x\<rfloor> = \<lfloor>y\<rfloor>")
  case True
  with assms show ?thesis by (auto simp add: roundHalfEven_def Let_def)
next
  case False
  with assms have "\<lfloor>x\<rfloor> < \<lfloor>y\<rfloor>" using floor_mono [of x y] by simp
  then have "roundHalfEven x \<le> \<lfloor>y\<rfloor>" using roundHalfEven_upper [of x] by simp
  then show ?thesis using roundHalfEven_lower [of y] by simp
qed

lemma roundHalfEven_nonneg: "0 \<le> x \<Longrightarrow> 0 \<le> roundHalfEven x"
  using roundHalfEven_mono [of 0 x] roundHalfEven_of_int [of 0] by simp

lemma roundHalfEven_le_of_int: "x \<le> of_int k \<Longrightarrow> roundHalfEven x \<le> k"
  using roundHalfEven_mono [of x "of_int k"] by (simp add: roundHalfEven_of_int)

lemma roundHalfEven_ge_of_int: "of_int k \<le> x \<Longrightarrow> k \<le> roundHalfEven x"
  using roundHalfEven_mono [of "of_int k" x] by (simp add: roundHalfEven_of_int)

lemma quantumFrom_pos: "0 < u \<Longrightarrow> 0 < quantumFrom n q u"
  by (induction n arbitrary: u) simp_all

lemma quantumFrom_ge: "0 < u \<Longrightarrow> u \<le> quantumFrom n q u"
proof (induction n arbitrary: u)
  case 0
  then show ?case by simp
next
  case (Suc n)
  from Suc.prems Suc.IH [of "2 * u"] show ?case by simp
qed

lemma quantumFrom_lower:
  "0 < u \<Longrightarrow> quantumFrom n q u = u \<or> 2 ^ 52 * quantumFrom n q u \<le> q"
proof (induction n arbitrary: u)
  case 0
  then show ?case by simp
next
  case (Suc n)
  show ?case
  proof (cases "q < 2 ^ 53 * u")
    case True
    then show ?thesis by simp
  next
    case False
    from Suc.prems Suc.IH [of "2 * u"]
    have "quantumFrom n q (2 * u) = 2 * u \<or> 2 ^ 52 * quantumFrom n q (2 * u) \<le> q" by simp
    with False show ?thesis by auto
  qed
qed

lemma quantumFrom_gap:
  assumes "0 < u" and "q \<le> q'"
  shows "quantumFrom n q u = quantumFrom n q' u
         \<or> (2 * quantumFrom n q u \<le> quantumFrom n q' u
            \<and> q < 2 ^ 53 * quantumFrom n q u
            \<and> 2 ^ 52 * quantumFrom n q' u \<le> q')"
  using assms
proof (induction n arbitrary: u)
  case 0
  then show ?case by simp
next
  case (Suc n)
  show ?case
  proof (cases "q < 2 ^ 53 * u")
    case small: True
    show ?thesis
    proof (cases "q' < 2 ^ 53 * u")
      case True
      with small show ?thesis by simp
    next
      case False
      from Suc.prems have pos: "0 < 2 * u" by simp
      have ge: "2 * u \<le> quantumFrom n q' (2 * u)" using quantumFrom_ge [OF pos] .
      have "quantumFrom n q' (2 * u) = 2 * u \<or> 2 ^ 52 * quantumFrom n q' (2 * u) \<le> q'"
        using quantumFrom_lower [OF pos] .
      with False have "2 ^ 52 * quantumFrom n q' (2 * u) \<le> q'" by auto
      with small False ge show ?thesis by simp
    qed
  next
    case False
    with Suc.prems have "\<not> q' < 2 ^ 53 * u" by simp
    with False Suc.IH [of "2 * u"] Suc.prems show ?thesis by simp
  qed
qed

lemma quantumFrom_reciprocal:
  assumes "q < 2 ^ 53"
  shows "\<exists>j\<le>e. quantumFrom n q (1 / 2 ^ e) = 1 / 2 ^ j"
proof (induction n arbitrary: e)
  case 0
  then show ?case by auto
next
  case (Suc n)
  show ?case
  proof (cases "q < 2 ^ 53 * (1 / 2 ^ e)")
    case True
    then show ?thesis by auto
  next
    case False
    with assms have "e \<noteq> 0" by (cases e) auto
    then obtain e' where e: "e = Suc e'" by (cases e) auto
    from Suc.IH [of e'] obtain j where "j \<le> e'" "quantumFrom n q (1 / 2 ^ e') = 1 / 2 ^ j"
      by auto
    with False e show ?thesis by (intro exI [of _ j]) simp
  qed
qed

lemma quantum_pos: "0 < quantum q"
  unfolding quantum_def by (rule quantumFrom_pos) simp

lemma roundNonneg_nonneg:
  assumes "0 \<le> q"
  shows "roundNonneg q = PosInf \<or> (\<exists>v. roundNonneg q = Finite v \<and> 0 \<le> v)"
proof -
  have "0 \<le> q / quantum q" using assms quantum_pos [of q] by simp
  then have "0 \<le> roundHalfEven (q / quantum q)" by (rule roundHalfEven_nonneg)
  then have "0 \<le> of_int (roundHalfEven (q / quantum q)) * quantum q"
    using quantum_pos [of q] by simp
  then show ?thesis by (simp add: roundNonneg_def Let_def)
qed

lemma roundNonneg_mono:
  assumes "0 \<le> q" and "q \<le> q'"
  shows "numberLessEq (roundNonneg q) (roundNonneg q')"
proof -
  define u where "u = quantum q"
  define u' where "u' = quantum q'"
  define v where "v = of_int (roundHalfEven (q / u)) * u"
  define v' where "v' = of_int (roundHalfEven (q' / u')) * u'"
  have upos: "0 < u" "0 < u'" unfolding u_def u'_def by (rule quantum_pos)+
  have "v \<le> v'"
  proof -
    have "u = u' \<or> (2 * u \<le> u' \<and> q < 2 ^ 53 * u \<and> 2 ^ 52 * u' \<le> q')"
      unfolding u_def u'_def quantum_def using quantumFrom_gap [OF _ assms(2)] by simp
    then show ?thesis
    proof
      assume same: "u = u'"
      have "q / u \<le> q' / u" using assms(2) upos(1) by (simp add: divide_right_mono)
      then have "roundHalfEven (q / u) \<le> roundHalfEven (q' / u)" by (rule roundHalfEven_mono)
      then have "(of_int (roundHalfEven (q / u)) :: rat) \<le> of_int (roundHalfEven (q' / u))"
        by simp
      then show ?thesis unfolding v_def v'_def same [symmetric]
        using upos(1) by (simp add: mult_right_mono)
    next
      assume gap: "2 * u \<le> u' \<and> q < 2 ^ 53 * u \<and> 2 ^ 52 * u' \<le> q'"
      then have "q / u \<le> of_int (2 ^ 53)" using upos(1) by (simp add: pos_divide_le_eq)
      then have "roundHalfEven (q / u) \<le> 2 ^ 53" by (rule roundHalfEven_le_of_int)
      then have "(of_int (roundHalfEven (q / u)) :: rat) \<le> of_int (2 ^ 53)"
        by (simp only: of_int_le_iff)
      then have "v \<le> 2 ^ 53 * u" unfolding v_def using upos(1) by (simp add: mult_right_mono)
      also have "\<dots> \<le> 2 ^ 52 * u'" using gap by simp
      finally have low: "v \<le> 2 ^ 52 * u'" .
      from gap have "of_int (2 ^ 52) \<le> q' / u'" using upos(2) by (simp add: pos_le_divide_eq)
      then have "2 ^ 52 \<le> roundHalfEven (q' / u')" by (rule roundHalfEven_ge_of_int)
      then have "(of_int (2 ^ 52) :: rat) \<le> of_int (roundHalfEven (q' / u'))"
        by (simp only: of_int_le_iff)
      then have "2 ^ 52 * u' \<le> v'" unfolding v'_def using upos(2) by (simp add: mult_right_mono)
      with low show ?thesis by simp
    qed
  qed
  then show ?thesis
    unfolding roundNonneg_def Let_def u_def [symmetric] u'_def [symmetric]
      v_def [symmetric] v'_def [symmetric]
    by auto
qed

lemma roundNonneg_of_int:
  assumes "0 \<le> k" and "k < 2 ^ 53"
  shows "roundNonneg (of_int k) = Finite (of_int k)"
proof -
  have qlt: "(of_int k :: rat) < 2 ^ 53"
    using assms(2) by (metis of_int_less_iff of_int_numeral of_int_power)
  from quantumFrom_reciprocal [OF qlt] obtain j where u: "quantum (of_int k) = 1 / 2 ^ j"
    unfolding quantum_def by blast
  have quot: "of_int k / quantum (of_int k) = of_int (k * 2 ^ j)" by (simp add: u)
  have r: "roundHalfEven (of_int k / quantum (of_int k)) = k * 2 ^ j"
    by (simp only: quot roundHalfEven_of_int)
  have same: "of_int (roundHalfEven (of_int k / quantum (of_int k))) * quantum (of_int k)
                = (of_int k :: rat)"
    unfolding r by (simp add: u)
  have "(2::rat) ^ 53 \<le> 2 ^ 1024" by (rule power_increasing) simp_all
  with qlt have "(of_int k :: rat) < 2 ^ 1024" by (rule less_le_trans)
  then have "\<not> 2 ^ 1024 \<le> (of_int k :: rat)" by (simp only: not_le)
  with same show ?thesis unfolding roundNonneg_def Let_def by (simp only: if_False)
qed

lemma binary64_not_NaN: "binary64 q \<noteq> NaN"
proof (cases "q < 0")
  case True
  then have "0 \<le> - q" by simp
  from roundNonneg_nonneg [OF this] True show ?thesis by (auto simp add: binary64_def)
next
  case False
  then have "0 \<le> q" by simp
  from roundNonneg_nonneg [OF this] False show ?thesis by (auto simp add: binary64_def)
qed

lemma numberLessEq_fneg:
  "numberLessEq x y \<Longrightarrow> numberLessEq (fneg y) (fneg x)"
  by (cases x; cases y) simp_all

lemma binary64_mono:
  assumes "q \<le> q'"
  shows "numberLessEq (binary64 q) (binary64 q')"
proof -
  consider "q' < 0" | "q < 0" "0 \<le> q'" | "0 \<le> q" using assms by linarith
  then show ?thesis
  proof cases
    case 1
    with assms have "0 \<le> - q'" "- q' \<le> - q" "q < 0" by simp_all
    then show ?thesis
      using numberLessEq_fneg [OF roundNonneg_mono [of "- q'" "- q"]] 1
      by (simp add: binary64_def)
  next
    case 2
    then have "0 \<le> - q" by simp
    from roundNonneg_nonneg [OF this] roundNonneg_nonneg [OF 2(2)] 2
    show ?thesis by (auto simp add: binary64_def)
  next
    case 3
    with assms have "\<not> q < 0" "\<not> q' < 0" by simp_all
    then show ?thesis using roundNonneg_mono [OF 3 assms] by (simp add: binary64_def)
  qed
qed

lemma binary64_of_int:
  assumes "\<bar>k\<bar> < 2 ^ 53"
  shows "binary64 (of_int k) = Finite (of_int k)"
proof (cases "k < 0")
  case True
  then have "0 \<le> - k" "- k < 2 ^ 53" using assms by simp_all
  from roundNonneg_of_int [OF this] True show ?thesis by (simp add: binary64_def)
next
  case False
  then have "0 \<le> k" "k < 2 ^ 53" using assms by simp_all
  from roundNonneg_of_int [OF this] False show ?thesis by (simp add: binary64_def)
qed

lemma binary64_ieeeRounding: "ieeeRounding binary64"
  unfolding ieeeRounding_def
  using binary64_not_NaN binary64_mono binary64_of_int by blast

lemma binary64_numeral:
  "(numeral n :: int) < 2 ^ 53 \<Longrightarrow> binary64 (numeral n) = Finite (numeral n)"
  using binary64_of_int [of "numeral n"] by simp

lemma binary64_neg_numeral:
  "(numeral n :: int) < 2 ^ 53 \<Longrightarrow> binary64 (- numeral n) = Finite (- numeral n)"
  using binary64_of_int [of "- numeral n"] by simp

lemma binary64_0: "binary64 0 = Finite 0"
  using binary64_of_int [of 0] by simp

lemma binary64_1: "binary64 1 = Finite 1"
  using binary64_of_int [of 1] by simp

lemmas binary64_integers = binary64_numeral binary64_neg_numeral binary64_0 binary64_1

section \<open>Arithmetic on numbers of the host\<close>

lemma rounding_not_NaN: "ieeeRounding rnd \<Longrightarrow> rnd q \<noteq> NaN"
  by (simp add: ieeeRounding_def)

lemma rounding_ge:
  assumes "ieeeRounding rnd" and "\<bar>k\<bar> < 2 ^ 53" and "of_int k \<le> q"
  shows "numberLessEq (Finite (of_int k)) (rnd q)"
proof -
  from assms(1,3) have "numberLessEq (rnd (of_int k)) (rnd q)" by (simp add: ieeeRounding_def)
  moreover from assms(1,2) have "rnd (of_int k) = Finite (of_int k)"
    by (simp add: ieeeRounding_def)
  ultimately show ?thesis by simp
qed

lemma rounding_le:
  assumes "ieeeRounding rnd" and "\<bar>k\<bar> < 2 ^ 53" and "q \<le> of_int k"
  shows "numberLessEq (rnd q) (Finite (of_int k))"
proof -
  from assms(1,3) have "numberLessEq (rnd q) (rnd (of_int k))" by (simp add: ieeeRounding_def)
  moreover from assms(1,2) have "rnd (of_int k) = Finite (of_int k)"
    by (simp add: ieeeRounding_def)
  ultimately show ?thesis by simp
qed

lemma numberWithin_iff:
  "numberWithin lo hi x
   \<longleftrightarrow> numberLessEq (Finite (of_int lo)) x \<and> numberLessEq x (Finite (of_int hi))"
  by (cases x) simp_all

lemma rounding_within:
  assumes "ieeeRounding rnd" and "\<bar>lo\<bar> < 2 ^ 53" and "\<bar>hi\<bar> < 2 ^ 53"
    and "of_int lo \<le> q" and "q \<le> of_int hi"
  shows "numberWithin lo hi (rnd q)"
  unfolding numberWithin_iff
  using rounding_ge [OF assms(1,2,4)] rounding_le [OF assms(1,3,5)] by simp

lemma rounding_nonneg:
  assumes "ieeeRounding rnd" and "0 \<le> q"
  shows "numberLessEq (Finite 0) (rnd q)"
  using rounding_ge [OF assms(1), of 0 q] assms(2) by simp

lemma fadd_Finite_not_NaN:
  "ieeeRounding rnd \<Longrightarrow> x \<noteq> NaN \<Longrightarrow> fadd rnd x (Finite b) \<noteq> NaN"
  by (cases x) (simp_all add: rounding_not_NaN)

lemma fdiv_Finite_not_NaN:
  "ieeeRounding rnd \<Longrightarrow> x \<noteq> NaN \<Longrightarrow> b \<noteq> 0 \<Longrightarrow> fdiv rnd x (Finite b) \<noteq> NaN"
  by (cases x) (simp_all add: rounding_not_NaN)

lemma fmul_Finite_not_NaN:
  "ieeeRounding rnd \<Longrightarrow> x \<noteq> NaN \<Longrightarrow> b \<noteq> 0 \<Longrightarrow> fmul rnd x (Finite b) \<noteq> NaN"
  by (cases x) (simp_all add: rounding_not_NaN)

lemma fsub_Finite_not_NaN:
  "ieeeRounding rnd \<Longrightarrow> y \<noteq> NaN \<Longrightarrow> fsub rnd (Finite a) y \<noteq> NaN"
  by (cases y) (simp_all add: fsub_def rounding_not_NaN)

lemma fadd_nonneg:
  assumes "ieeeRounding rnd" and "numberLessEq (Finite 0) x" and "numberLessEq (Finite 0) y"
  shows "numberLessEq (Finite 0) (fadd rnd x y)"
  using assms by (cases x; cases y) (simp_all add: rounding_nonneg)

lemma fdiv_nonneg:
  assumes "ieeeRounding rnd" and "numberLessEq (Finite 0) x" and "0 < b"
  shows "numberLessEq (Finite 0) (fdiv rnd x (Finite b))"
  using assms by (cases x) (simp_all add: rounding_nonneg)

lemma fmul_nonneg:
  assumes "ieeeRounding rnd" and "numberLessEq (Finite 0) x" and "0 < b"
  shows "numberLessEq (Finite 0) (fmul rnd x (Finite b))"
  using assms by (cases x) (simp_all add: rounding_nonneg)

lemma mathPow2_nonneg:
  assumes "ieeeRounding rnd" and "x \<noteq> NaN"
  shows "numberLessEq (Finite 0) (mathPow2 rnd x)"
  using assms by (cases x) (simp_all add: rounding_nonneg)

lemma fadd_within:
  assumes "ieeeRounding rnd" and "numberWithin lo hi x" and "numberWithin lo' hi' y"
    and "\<bar>lo + lo'\<bar> < 2 ^ 53" and "\<bar>hi + hi'\<bar> < 2 ^ 53"
  shows "numberWithin (lo + lo') (hi + hi') (fadd rnd x y)"
proof -
  from assms(2) obtain a where x: "x = Finite a" "of_int lo \<le> a" "a \<le> of_int hi"
    by (cases x) simp_all
  from assms(3) obtain b where y: "y = Finite b" "of_int lo' \<le> b" "b \<le> of_int hi'"
    by (cases y) simp_all
  have "numberWithin (lo + lo') (hi + hi') (rnd (a + b))"
    using x(2,3) y(2,3) by (intro rounding_within [OF assms(1,4,5)]) simp_all
  then show ?thesis by (simp add: x(1) y(1))
qed

lemma clamp_within:
  assumes "x \<noteq> NaN" and "lo \<le> hi"
  shows "numberWithin lo hi (mathMin (Finite (of_int hi)) (mathMax (Finite (of_int lo)) x))"
  using assms by (cases x) (auto simp add: mathMin_def mathMax_def)

lemma mathMax_within:
  assumes "numberLessEq x (Finite (of_int hi))" and "lo \<le> hi"
  shows "numberWithin lo hi (mathMax (Finite (of_int lo)) x)"
  using assms by (cases x) (auto simp add: mathMax_def)

lemma mathMin_within:
  assumes "numberLessEq (Finite (of_int lo)) x" and "lo \<le> hi"
  shows "numberWithin lo hi (mathMin (Finite (of_int hi)) x)"
  using assms by (cases x) (auto simp add: mathMin_def)

lemma mathRound_within:
  assumes "numberWithin lo hi x"
  shows "integerWithin lo hi (mathRound x)"
proof -
  from assms obtain a where x: "x = Finite a" "of_int lo \<le> a" "a \<le> of_int hi"
    by (cases x) simp_all
  have "lo \<le> \<lfloor>a + 1 / 2\<rfloor>" using x(2) by (simp add: le_floor_iff)
  moreover have "\<lfloor>a + 1 / 2\<rfloor> \<le> hi"
  proof -
    have "a + 1 / 2 < of_int (hi + 1)" using x(3) by simp
    then have "\<lfloor>a + 1 / 2\<rfloor> < hi + 1" by (simp only: floor_less_iff)
    then show ?thesis by simp
  qed
  ultimately show ?thesis by (simp add: x(1))
qed

lemma foldl_fadd_not_NaN:
  assumes "ieeeRounding rnd" and "\<forall>x\<in>set xs. finiteNumber (f x)" and "acc \<noteq> NaN"
  shows "foldl (\<lambda>sum x. fadd rnd sum (f x)) acc xs \<noteq> NaN"
  using assms(2,3)
proof (induction xs arbitrary: acc)
  case Nil
  then show ?case by simp
next
  case (Cons x xs)
  from Cons.prems(1) obtain b where b: "f x = Finite b" by (cases "f x") simp_all
  have "fadd rnd acc (f x) \<noteq> NaN"
    unfolding b using assms(1) Cons.prems(2) by (rule fadd_Finite_not_NaN)
  with Cons.IH [of "fadd rnd acc (f x)"] Cons.prems(1) show ?case by simp
qed

lemma reduceSum_not_NaN:
  assumes "ieeeRounding rnd" and "\<forall>x\<in>set xs. finiteNumber (f x)"
  shows "reduceSum rnd f xs \<noteq> NaN"
  unfolding reduceSum_def using assms by (intro foldl_fadd_not_NaN) simp_all

lemma foldl_fadd_nonneg:
  assumes "ieeeRounding rnd" and "\<forall>x\<in>set xs. numberLessEq (Finite 0) (f x)"
    and "numberLessEq (Finite 0) acc"
  shows "numberLessEq (Finite 0) (foldl (\<lambda>sum x. fadd rnd sum (f x)) acc xs)"
  using assms(2,3)
proof (induction xs arbitrary: acc)
  case Nil
  then show ?case by simp
next
  case (Cons x xs)
  have "numberLessEq (Finite 0) (fadd rnd acc (f x))"
    using assms(1) Cons.prems by (intro fadd_nonneg) simp_all
  with Cons.IH [of "fadd rnd acc (f x)"] Cons.prems(1) show ?case by simp
qed

lemma reduceSum_nonneg:
  assumes "ieeeRounding rnd" and "\<forall>x\<in>set xs. numberLessEq (Finite 0) (f x)"
  shows "numberLessEq (Finite 0) (reduceSum rnd f xs)"
  unfolding reduceSum_def using assms by (intro foldl_fadd_nonneg) simp_all

section \<open>The smart score\<close>

lemma orZero_finite: "finiteField v \<Longrightarrow> finiteNumber (orZero v)"
  by (cases v rule: orZero.cases) (simp_all add: finiteField_def)

lemma calculateVariance_nonneg:
  assumes "ieeeRounding rnd" and "\<forall>v\<in>set vals. finiteNumber v"
  shows "numberLessEq (Finite 0) (calculateVariance rnd vals)"
proof (cases "vals = []")
  case True
  then show ?thesis by (simp add: calculateVariance_def)
next
  case False
  define mean where "mean = fdiv rnd (reduceSum rnd (\<lambda>v. v) vals) (lengthNumber vals)"
  have len: "(0::rat) < of_nat (length vals)" using False by simp
  have "reduceSum rnd (\<lambda>v. v) vals \<noteq> NaN" using assms by (rule reduceSum_not_NaN)
  then have mean: "mean \<noteq> NaN"
    unfolding mean_def lengthNumber_def using assms(1) len by (intro fdiv_Finite_not_NaN) simp_all
  have "\<forall>v\<in>set vals. numberLessEq (Finite 0) (mathPow2 rnd (fsub rnd v mean))"
  proof
    fix v assume "v \<in> set vals"
    with assms(2) obtain a where "v = Finite a" by (cases v) auto
    then have "fsub rnd v mean \<noteq> NaN" using assms(1) mean by (simp add: fsub_Finite_not_NaN)
    with assms(1) show "numberLessEq (Finite 0) (mathPow2 rnd (fsub rnd v mean))"
      by (rule mathPow2_nonneg)
  qed
  with assms(1)
  have "numberLessEq (Finite 0) (reduceSum rnd (\<lambda>v. mathPow2 rnd (fsub rnd v mean)) vals)"
    by (rule reduceSum_nonneg)
  with assms(1)
  have "numberLessEq (Finite 0)
          (fdiv rnd (reduceSum rnd (\<lambda>v. mathPow2 rnd (fsub rnd v mean)) vals)
             (Finite (of_nat (length vals))))"
    using len by (rule fdiv_nonneg)
  with False show ?thesis
    by (simp add: calculateVariance_def Let_def mean_def lengthNumber_def)
qed

lemma pnlScore_within:
  assumes "ieeeRounding rnd" and "\<forall>p\<in>set positions. finiteField (percentPnl p)"
  shows "numberWithin 0 40 (pnlScore rnd positions)"
proof -
  define avgPnL where
    "avgPnL = (if 0 < length positions
               then fdiv rnd (reduceSum rnd (\<lambda>p. orZero (percentPnl p)) positions)
                      (lengthNumber positions)
               else Finite 0)"
  have "avgPnL \<noteq> NaN"
  proof (cases "0 < length positions")
    case True
    have "reduceSum rnd (\<lambda>p. orZero (percentPnl p)) positions \<noteq> NaN"
      using assms by (intro reduceSum_not_NaN) (simp_all add: orZero_finite)
    then have "fdiv rnd (reduceSum rnd (\<lambda>p. orZero (percentPnl p)) positions)
                 (Finite (of_nat (length positions))) \<noteq> NaN"
      using assms(1) True by (intro fdiv_Finite_not_NaN) simp_all
    with True show ?thesis by (simp add: avgPnL_def lengthNumber_def)
  next
    case False
    then show ?thesis by (simp add: avgPnL_def)
  qed
  with assms(1) have "fadd rnd avgPnL (Finite 50) \<noteq> NaN" by (rule fadd_Finite_not_NaN)
  with assms(1) have "fdiv rnd (fadd rnd avgPnL (Finite 50)) (Finite 100) \<noteq> NaN"
    by (rule fdiv_Finite_not_NaN) simp
  with assms(1)
  have "fmul rnd (fdiv rnd (fadd rnd avgPnL (Finite 50)) (Finite 100)) (Finite 40) \<noteq> NaN"
    by (rule fmul_Finite_not_NaN) simp
  from clamp_within [OF this, of 0 40] show ?thesis
    by (simp add: pnlScore_def Let_def avgPnL_def)
qed

lemma winRateScore_within:
  assumes "ieeeRounding rnd"
  shows "numberWithin 0 30 (winRateScore rnd positions)"
proof -
  define w where
    "w = length (filter (\<lambda>p. numberLess (Finite 0) (orZero (cashPnl p))) positions)"
  define winRate where
    "winRate = (if 0 < length positions
                then fdiv rnd (Finite (of_nat w)) (Finite (of_nat (length positions)))
                else Finite 0)"
  have "w \<le> length positions" unfolding w_def by simp
  have "numberWithin 0 1 winRate"
  proof (cases "0 < length positions")
    case True
    have "(of_nat w :: rat) / of_nat (length positions) \<le> 1"
      using \<open>w \<le> length positions\<close> True by (simp add: divide_le_eq_1)
    then have "numberWithin 0 1 (rnd (of_nat w / of_nat (length positions)))"
      by (intro rounding_within [OF assms]) simp_all
    with True show ?thesis by (simp add: winRate_def)
  next
    case False
    then show ?thesis by (simp add: winRate_def)
  qed
  then obtain r where r: "winRate = Finite r" "0 \<le> r" "r \<le> 1" by (cases winRate) simp_all
  have "numberWithin 0 30 (rnd (r * 30))"
    using r(2,3) by (intro rounding_within [OF assms]) simp_all
  moreover have "winRateScore rnd positions = fmul rnd winRate (Finite 30)"
    by (simp add: winRateScore_def Let_def lengthNumber_def w_def winRate_def)
  ultimately show ?thesis by (simp add: r(1))
qed

lemma consistencyScore_within:
  assumes "ieeeRounding rnd" and "\<forall>p\<in>set positions. finiteField (percentPnl p)"
  shows "numberWithin 0 20 (consistencyScore rnd positions)"
proof -
  define variance where
    "variance = calculateVariance rnd (map (\<lambda>p. orZero (percentPnl p)) positions)"
  have "numberLessEq (Finite 0) variance"
    unfolding variance_def using assms
    by (intro calculateVariance_nonneg) (simp_all add: orZero_finite)
  with assms(1) have tenth: "numberLessEq (Finite 0) (fdiv rnd variance (Finite 10))"
    by (rule fdiv_nonneg) simp
  have "numberLessEq (fsub rnd (Finite 20) (fdiv rnd variance (Finite 10))) (Finite (of_int 20))"
  proof (cases "fdiv rnd variance (Finite 10)")
    case (Finite a)
    with tenth have "20 + - a \<le> of_int 20" by simp
    with assms(1) have "numberLessEq (rnd (20 + - a)) (Finite (of_int 20))"
      by (intro rounding_le) simp_all
    with Finite show ?thesis by (simp add: fsub_def)
  next
    case PosInf
    then show ?thesis by (simp add: fsub_def)
  next
    case NegInf
    with tenth show ?thesis by simp
  next
    case NaN
    with tenth show ?thesis by simp
  qed
  from mathMax_within [OF this, of 0] show ?thesis
    by (simp add: consistencyScore_def Let_def variance_def)
qed

lemma activityScore_within:
  assumes "ieeeRounding rnd"
  shows "numberWithin 0 10 (activityScore rnd clock activities)"
proof -
  define recentTrades where
    "recentTrades =
       filter (\<lambda>(i, a). numberLess (Finite (of_int (clock i - 7 * 24 * 60 * 60 * 1000)))
                           (activityTimestamp a))
         (enumerate 0 activities)"
  have "numberLessEq (Finite 0) (Finite (of_nat (length recentTrades)))" by simp
  with assms have "numberLessEq (Finite 0) (fdiv rnd (Finite (of_nat (length recentTrades))) (Finite 5))"
    by (rule fdiv_nonneg) simp
  with assms
  have "numberLessEq (Finite (of_int 0))
          (fmul rnd (fdiv rnd (Finite (of_nat (length recentTrades))) (Finite 5)) (Finite 10))"
    unfolding of_int_0 by (rule fmul_nonneg) simp
  from mathMin_within [OF this, of 10] show ?thesis
    by (simp add: activityScore_def Let_def lengthNumber_def recentTrades_def)
qed

lemma finiteFields_percentPnl:
  "finiteFields positions activities \<Longrightarrow> \<forall>p\<in>set positions. finiteField (percentPnl p)"
  by (simp add: finiteFields_def list_all_iff)

lemma getWalletProfile_smartScore:
  "smartScore (getWalletProfile rnd clock addr positions activities)
     = calculateSmartScore rnd clock positions activities"
  by (simp add: getWalletProfile_def Let_def)

lemma calculateSmartScore_within:
  assumes "ieeeRounding rnd" and "finiteFields positions activities"
  shows "integerWithin 0 100 (calculateSmartScore rnd clock positions activities)
         \<and> smartScore (getWalletProfile rnd clock addr positions activities)
             = calculateSmartScore rnd clock positions activities
         \<and> numberWithin 0 40 (pnlScore rnd positions)
         \<and> numberWithin 0 30 (winRateScore rnd positions)
         \<and> numberWithin 0 20 (consistencyScore rnd positions)
         \<and> numberWithin 0 10 (activityScore rnd clock activities)"
proof -
  note fin = finiteFields_percentPnl [OF assms(2)]
  have p: "numberWithin 0 40 (pnlScore rnd positions)"
    using assms(1) fin by (rule pnlScore_within)
  have w: "numberWithin 0 30 (winRateScore rnd positions)"
    using assms(1) by (rule winRateScore_within)
  have c: "numberWithin 0 20 (consistencyScore rnd positions)"
    using assms(1) fin by (rule consistencyScore_within)
  have a: "numberWithin 0 10 (activityScore rnd clock activities)"
    using assms(1) by (rule activityScore_within)
  have pw: "numberWithin (0 + 0) (40 + 30)
          (fadd rnd (pnlScore rnd positions) (winRateScore rnd positions))"
    using assms(1) p w by (rule fadd_within) simp_all
  have pwc: "numberWithin (0 + 0 + 0) (40 + 30 + 20)
          (fadd rnd (fadd rnd (pnlScore rnd positions) (winRateScore rnd positions))
             (consistencyScore rnd positions))"
    using assms(1) pw c by (rule fadd_within) simp_all
  have "numberWithin (0 + 0 + 0 + 0) (40 + 30 + 20 + 10)
          (fadd rnd
             (fadd rnd (fadd rnd (pnlScore rnd positions) (winRateScore rnd positions))
                (consistencyScore rnd positions))
             (activityScore rnd clock activities))"
    using assms(1) pwc a by (rule fadd_within) simp_all
  then have "integerWithin (0 + 0 + 0 + 0) (40 + 30 + 20 + 10)
               (calculateSmartScore rnd clock positions activities)"
    unfolding calculateSmartScore_def by (rule mathRound_within)
  then have "integerWithin 0 100 (calculateSmartScore rnd clock positions activities)" by simp
  moreover have "smartScore (getWalletProfile rnd clock addr positions activities)
                   = calculateSmartScore rnd clock positions activities"
    by (simp add: getWalletProfile_def Let_def)
  ultimately show ?thesis using p w c a by simp
qed

lemma example_finiteFields: "finiteFields examplePositions exampleActivities"
  by (simp add: finiteFields_def finiteField_def examplePositions_def exampleActivities_def)

lemma example_pnlScore: "pnlScore binary64 examplePositions = Finite 40"
  by (simp add: pnlScore_def examplePositions_def reduceSum_def lengthNumber_def
      mathMin_def mathMax_def binary64_integers)

lemma example_winRateScore: "winRateScore binary64 examplePositions = Finite 30"
  by (simp add: winRateScore_def examplePositions_def lengthNumber_def binary64_integers)

lemma example_consistencyScore: "consistencyScore binary64 examplePositions = Finite 10"
  by (simp add: consistencyScore_def calculateVariance_def examplePositions_def reduceSum_def
      lengthNumber_def fsub_def mathMax_def binary64_integers)

lemma example_activityScore: "activityScore binary64 exampleClock exampleActivities = Finite 10"
  by (simp add: activityScore_def exampleActivities_def exampleClock_def lengthNumber_def
      mathMin_def binary64_integers)

lemma example_calculateSmartScore:
  "calculateSmartScore binary64 exampleClock examplePositions exampleActivities = Finite 90"
proof -
  have "\<lfloor>(90::rat) + 1 / 2\<rfloor> = 90" by (rule floor_unique) simp_all
  then show ?thesis
    by (simp add: calculateSmartScore_def example_pnlScore example_winRateScore
        example_consistencyScore example_activityScore binary64_integers)
qed

text \<open>
  Claim C10. For every list of positions and of activities whose numeric fields are
  finite (or absent), and whatever the clock reads, \<open>calculateSmartScore\<close> computed in
  the double arithmetic of the host, and so the \<open>smartScore\<close> of the profile
  \<open>getWalletProfile\<close> returns, is an integer from 0 to 100: neither NaN nor an infinity,
  also when a sum or a square overflows. Its four components lie in \<open>[0, 40]\<close> (PnL),
  \<open>[0, 30]\<close> (win rate), \<open>[0, 20]\<close> (consistency) and \<open>[0, 10]\<close> (activity).
\<close>

theorem smart_score_integer_between_0_and_100:
  assumes "finiteFields positions activities"
  shows "integerWithin 0 100 (calculateSmartScore binary64 clock positions activities)
         \<and> integerWithin 0 100
             (smartScore (getWalletProfile binary64 clock addr positions activities))
         \<and> numberWithin 0 40 (pnlScore binary64 positions)
         \<and> numberWithin 0 30 (winRateScore binary64 positions)
         \<and> numberWithin 0 20 (consistencyScore binary64 positions)
         \<and> numberWithin 0 10 (activityScore binary64 clock activities)"
  using calculateSmartScore_within [OF binary64_ieeeRounding assms, of clock addr] by simp

theorem smart_score_integer_between_0_and_100_witness:
  "finiteFields examplePositions exampleActivities
   \<and> calculateSmartScore binary64 exampleClock examplePositions exampleActivities = Finite 90
   \<and> integerWithin 0 100 (Finite 90)
   \<and> smartScore (getWalletProfile binary64 exampleClock ''0x5a'' examplePositions exampleActivities)
       = Finite 90
   \<and> pnlScore binary64 examplePositions = Finite 40
   \<and> winRateScore binary64 examplePositions = Finite 30
   \<and> consistencyScore binary64 examplePositions = Finite 10
   \<and> activityScore binary64 exampleClock exampleActivities = Finite 10"
  using smart_score_integer_between_0_and_100
    [OF example_finiteFields, of exampleClock "''0x5a''"]
  by (simp add: example_finiteFields getWalletProfile_smartScore example_calculateSmartScore
      example_pnlScore example_winRateScore example_consistencyScore example_activityScore)

end
